theory Spec2Isabelle
  imports Main "HOL-Library.Word" "HOL-Library.Monad_Syntax"
begin

section \<open>Depthwise 1-D convolution (conv1d\_blh.cu): the embedding\<close>

text \<open>
  The source declares every size, index and padding as \<^verbatim>\<open>uint\<close>; the loop variables of
  the kernels are \<^verbatim>\<open>int\<close> but are converted to \<^verbatim>\<open>uint\<close> wherever they meet a
  \<^verbatim>\<open>uint\<close> operand (comparisons, index expressions, the arguments of \<^verbatim>\<open>get_u\<close>).
  Both are 32 bits wide and the conversion keeps the bit pattern, so all of this arithmetic
  is arithmetic on 32-bit words, wrap-around included.
\<close>

type_synonym uint = "32 word"

definition BX :: uint where "BX = 512"
definition BY :: uint where "BY = 1"
definition BZ :: uint where "BZ = 1"

definition TILE_SIZE_Y :: uint where "TILE_SIZE_Y = 4"
definition TILE_SIZE_X :: uint where "TILE_SIZE_X = 2"

subsection \<open>Numeric representations\<close>

text \<open>
  The kernels are templates over the packed types \<^verbatim>\<open>__half2\<close>, \<^verbatim>\<open>__nv_bfloat162\<close> and
  \<^verbatim>\<open>float2\<close>. A packed value is a pair of scalars. The scalar arithmetic itself (the
  rounding of each format) belongs to the device and is a parameter of the model: for each
  format the value that the conversion of \<^verbatim>\<open>0.0f\<close> yields and the multiply-add of one lane.
  The scalars of all formats live in one type \<open>'s\<close>.
\<close>

type_synonym 's vec2 = "'s \<times> 's"

record 's arith =
  fzero :: 's
  fmadd :: "'s \<Rightarrow> 's \<Rightarrow> 's \<Rightarrow> 's"

record 's device =
  half_ops :: "'s arith"
  bfloat16_ops :: "'s arith"
  float_ops :: "'s arith"

datatype packed = Half2 | BFloat162 | Float2

text \<open>\<^verbatim>\<open>__float2half2_rn(0.0f)\<close>, \<^verbatim>\<open>__float2bfloat162_rn(0.0f)\<close>, \<^verbatim>\<open>make_float2(0.0f, 0.0f)\<close>.\<close>

definition float2half2_rn_0 :: "'s device \<Rightarrow> 's vec2" where
  "float2half2_rn_0 dev = (fzero (half_ops dev), fzero (half_ops dev))"

definition float2bfloat162_rn_0 :: "'s device \<Rightarrow> 's vec2" where
  "float2bfloat162_rn_0 dev = (fzero (bfloat16_ops dev), fzero (bfloat16_ops dev))"

definition make_float2_0 :: "'s device \<Rightarrow> 's vec2" where
  "make_float2_0 dev = (fzero (float_ops dev), fzero (float_ops dev))"

text \<open>
  \<^verbatim>\<open>__hfma2\<close>: the source defines the \<^verbatim>\<open>float2\<close> overload lane by lane
  (\<^verbatim>\<open>a.x * b.x + c.x\<close>, \<^verbatim>\<open>a.y * b.y + c.y\<close>); the other two are the device's intrinsics,
  which are lane-wise fused multiply-adds as well.
\<close>

definition hfma2_float2 :: "'s device \<Rightarrow> 's vec2 \<Rightarrow> 's vec2 \<Rightarrow> 's vec2 \<Rightarrow> 's vec2" where
  "hfma2_float2 dev a b c =
     (fmadd (float_ops dev) (fst a) (fst b) (fst c), fmadd (float_ops dev) (snd a) (snd b) (snd c))"

definition hfma2_half2 :: "'s device \<Rightarrow> 's vec2 \<Rightarrow> 's vec2 \<Rightarrow> 's vec2 \<Rightarrow> 's vec2" where
  "hfma2_half2 dev a b c =
     (fmadd (half_ops dev) (fst a) (fst b) (fst c), fmadd (half_ops dev) (snd a) (snd b) (snd c))"

definition hfma2_bfloat162 :: "'s device \<Rightarrow> 's vec2 \<Rightarrow> 's vec2 \<Rightarrow> 's vec2 \<Rightarrow> 's vec2" where
  "hfma2_bfloat162 dev a b c =
     (fmadd (bfloat16_ops dev) (fst a) (fst b) (fst c),
      fmadd (bfloat16_ops dev) (snd a) (snd b) (snd c))"

text \<open>Overload resolution at the template parameter \<^verbatim>\<open>T\<close>.\<close>

fun hfma2 :: "packed \<Rightarrow> 's device \<Rightarrow> 's vec2 \<Rightarrow> 's vec2 \<Rightarrow> 's vec2 \<Rightarrow> 's vec2" where
  "hfma2 Half2 dev a b c = hfma2_half2 dev a b c"
| "hfma2 BFloat162 dev a b c = hfma2_bfloat162 dev a b c"
| "hfma2 Float2 dev a b c = hfma2_float2 dev a b c"

subsection \<open>Device memory\<close>

text \<open>
  A tensor's storage is a row-major list of scalars. The dispatcher casts the data pointer
  to a pointer to packed pairs, so element \<open>i\<close> of the packed array is the pair of scalars
  \<open>2 i\<close> and \<open>2 i + 1\<close>. A read outside the storage is undefined behaviour in the source; here
  it is the value \<open>None\<close>.
\<close>

definition ld2 :: "'s list \<Rightarrow> uint \<Rightarrow> 's vec2 option" where
  "ld2 a i = (if 2 * unat i + 1 < length a then Some (a ! (2 * unat i), a ! (2 * unat i + 1))
              else None)"

subsection \<open>The padding-aware sampler\<close>

definition get_u_half2 ::
  "'s device \<Rightarrow> 's list \<Rightarrow> uint \<Rightarrow> uint \<Rightarrow> uint \<Rightarrow> uint \<Rightarrow> uint \<Rightarrow> uint \<Rightarrow> uint \<Rightarrow> uint \<Rightarrow> uint
     \<Rightarrow> 's vec2 option" where
  "get_u_half2 dev u L_eff l p b k d L D K =
     (if l + k < p \<or> l + k > L_eff - (p + 1) then Some (float2half2_rn_0 dev)
      else ld2 u (b * L * D + (l + k - p) * D + d))"

definition get_u_bfloat162 ::
  "'s device \<Rightarrow> 's list \<Rightarrow> uint \<Rightarrow> uint \<Rightarrow> uint \<Rightarrow> uint \<Rightarrow> uint \<Rightarrow> uint \<Rightarrow> uint \<Rightarrow> uint \<Rightarrow> uint
     \<Rightarrow> 's vec2 option" where
  "get_u_bfloat162 dev u L_eff l p b k d L D K =
     (if l + k < p \<or> l + k > L_eff - (p + 1) then Some (float2bfloat162_rn_0 dev)
      else ld2 u (b * L * D + (l + k - p) * D + d))"

definition get_u_float2 ::
  "'s device \<Rightarrow> 's list \<Rightarrow> uint \<Rightarrow> uint \<Rightarrow> uint \<Rightarrow> uint \<Rightarrow> uint \<Rightarrow> uint \<Rightarrow> uint \<Rightarrow> uint \<Rightarrow> uint
     \<Rightarrow> 's vec2 option" where
  "get_u_float2 dev u L_eff l p b k d L D K =
     (if l + k < p \<or> l + k > L_eff - (p + 1) then Some (make_float2_0 dev)
      else ld2 u (b * L * D + (l + k - p) * D + d))"

fun get_u ::
  "packed \<Rightarrow> 's device \<Rightarrow> 's list \<Rightarrow> uint \<Rightarrow> uint \<Rightarrow> uint \<Rightarrow> uint \<Rightarrow> uint \<Rightarrow> uint \<Rightarrow> uint \<Rightarrow> uint
     \<Rightarrow> uint \<Rightarrow> 's vec2 option" where
  "get_u Half2 dev u L_eff l p b k d L D K = get_u_half2 dev u L_eff l p b k d L D K"
| "get_u BFloat162 dev u L_eff l p b k d L D K = get_u_bfloat162 dev u L_eff l p b k d L D K"
| "get_u Float2 dev u L_eff l p b k d L D K = get_u_float2 dev u L_eff l p b k d L D K"

fun zero2 :: "packed \<Rightarrow> 's device \<Rightarrow> 's vec2" where
  "zero2 Half2 dev = float2half2_rn_0 dev"
| "zero2 BFloat162 dev = float2bfloat162_rn_0 dev"
| "zero2 Float2 dev = make_float2_0 dev"

subsection \<open>The kernels\<close>

text \<open>The arguments of a kernel launch, as both kernels declare them.\<close>

record 's kargs =
  k_u :: "'s list"
  k_weights :: "'s list"
  k_bias :: "'s list"
  k_padding :: uint
  k_B :: uint
  k_L :: uint
  k_L_out :: uint
  k_L_eff :: uint
  k_D :: uint
  k_K :: uint

record dim3 =
  dim_x :: uint
  dim_y :: uint
  dim_z :: uint

text \<open>
  A store of a thread: the index into the packed output array and the value, or \<open>None\<close>
  when computing the value read outside an array. The kernels never read \<^verbatim>\<open>out\<close>, so what
  a thread does is the list of its stores, in program order.
\<close>

type_synonym 's store = "uint \<times> 's vec2 option"

text \<open>\<^verbatim>\<open>_conv1d_k_3\<close>: the three taps written out.\<close>

definition conv1d_k_3 ::
  "packed \<Rightarrow> 's device \<Rightarrow> 's list \<Rightarrow> 's list \<Rightarrow> 's list \<Rightarrow> uint \<Rightarrow> uint \<Rightarrow> uint \<Rightarrow> uint \<Rightarrow> uint
     \<Rightarrow> uint \<Rightarrow> uint \<Rightarrow> uint \<Rightarrow> uint \<Rightarrow> uint \<Rightarrow> 's store" where
  "conv1d_k_3 T dev u weights bias padding b l d t L D K L_eff L_out =
     (b * D * L_out + (l + t) * D + d,
      do {
        temp_sum \<leftarrow> ld2 bias d;
        u0 \<leftarrow> get_u T dev u L_eff (l + t) padding b 0 d L D K;
        w0 \<leftarrow> ld2 weights (0 * D + d);
        let temp_sum = hfma2 T dev u0 w0 temp_sum;
        u1 \<leftarrow> get_u T dev u L_eff (l + t) padding b 1 d L D K;
        w1 \<leftarrow> ld2 weights (1 * D + d);
        let temp_sum = hfma2 T dev u1 w1 temp_sum;
        u2 \<leftarrow> get_u T dev u L_eff (l + t) padding b 2 d L D K;
        w2 \<leftarrow> ld2 weights (2 * D + d);
        Some (hfma2 T dev u2 w2 temp_sum)
      })"

text \<open>The tap loop of the generic kernel, \<^verbatim>\<open>for (int k = 0; k < K; k++)\<close>, over the list of
  the values that \<open>k\<close> takes.\<close>

fun taps ::
  "packed \<Rightarrow> 's device \<Rightarrow> 's kargs \<Rightarrow> uint \<Rightarrow> uint \<Rightarrow> uint \<Rightarrow> nat list \<Rightarrow> 's vec2 \<Rightarrow> 's vec2 option"
  where
  "taps T dev a b lt d [] temp_sum = Some temp_sum"
| "taps T dev a b lt d (k # ks) temp_sum =
     do {
       uk \<leftarrow> get_u T dev (k_u a) (k_L_eff a) lt (k_padding a) b (of_nat k) d (k_L a) (k_D a) (k_K a);
       wk \<leftarrow> ld2 (k_weights a) (of_nat k * k_D a + d);
       taps T dev a b lt d ks (hfma2 T dev uk wk temp_sum)
     }"

definition conv1d_kernel_k_3 ::
  "packed \<Rightarrow> 's device \<Rightarrow> 's kargs \<Rightarrow> dim3 \<Rightarrow> dim3 \<Rightarrow> dim3 \<Rightarrow> 's store list" where
  "conv1d_kernel_k_3 T dev a blockDim blockIdx threadIdx =
     (let d_block = dim_x blockIdx * dim_x blockDim * TILE_SIZE_X;
          l = dim_y blockIdx * dim_y blockDim * TILE_SIZE_Y + dim_y threadIdx * TILE_SIZE_Y;
          b = dim_z blockIdx * dim_z blockDim + dim_z threadIdx
      in concat (map (\<lambda>i.
           let d = d_block + dim_x threadIdx + of_nat i * BX in
           if d < k_D a \<and> b < k_B a then
             concat (map (\<lambda>t.
               if l + of_nat t < k_L_eff a - k_K a + 1 then
                 [conv1d_k_3 T dev (k_u a) (k_weights a) (k_bias a) (k_padding a) b l d (of_nat t)
                    (k_L a) (k_D a) (k_K a) (k_L_eff a) (k_L_out a)]
               else []) [0..<unat TILE_SIZE_Y])
           else []) [0..<unat TILE_SIZE_X]))"

definition conv1d_kernel ::
  "packed \<Rightarrow> 's device \<Rightarrow> 's kargs \<Rightarrow> dim3 \<Rightarrow> dim3 \<Rightarrow> dim3 \<Rightarrow> 's store list" where
  "conv1d_kernel T dev a blockDim blockIdx threadIdx =
     (let d_block = dim_x blockIdx * dim_x blockDim * TILE_SIZE_X;
          l = dim_y blockIdx * dim_y blockDim * TILE_SIZE_Y + dim_y threadIdx * TILE_SIZE_Y;
          b = dim_z blockIdx * dim_z blockDim + dim_z threadIdx
      in concat (map (\<lambda>i.
           let d = d_block + dim_x threadIdx + of_nat i * BX in
           if d < k_D a \<and> b < k_B a then
             concat (map (\<lambda>t.
               if l + of_nat t < k_L_eff a - k_K a + 1 then
                 [(b * k_D a * k_L_out a + (l + of_nat t) * k_D a + d,
                   do {
                     temp_sum \<leftarrow> ld2 (k_bias a) d;
                     taps T dev a b (l + of_nat t) d [0..<unat (k_K a)] temp_sum
                   })]
               else []) [0..<unat TILE_SIZE_Y])
           else []) [0..<unat TILE_SIZE_X]))"

subsection \<open>Kernel launch\<close>

text \<open>
  \<^verbatim>\<open>kernel<<<gridDims, blockDims>>>(...)\<close> runs the kernel once for every block index below
  \<open>gridDim\<close> and every thread index below \<open>blockDim\<close>. No thread reads what another one
  writes, so the launch is the list of all stores; the order in which the blocks are listed
  here is one of the schedules the device may choose.
\<close>

definition launch :: "(dim3 \<Rightarrow> dim3 \<Rightarrow> dim3 \<Rightarrow> 'w list) \<Rightarrow> dim3 \<Rightarrow> dim3 \<Rightarrow> 'w list" where
  "launch kern gridDim blockDim =
     concat (map (\<lambda>jz. concat (map (\<lambda>jy. concat (map (\<lambda>jx.
       concat (map (\<lambda>tz. concat (map (\<lambda>ty. concat (map (\<lambda>tx.
         kern blockDim
           \<lparr>dim_x = of_nat jx, dim_y = of_nat jy, dim_z = of_nat jz\<rparr>
           \<lparr>dim_x = of_nat tx, dim_y = of_nat ty, dim_z = of_nat tz\<rparr>)
         [0..<unat (dim_x blockDim)])) [0..<unat (dim_y blockDim)])) [0..<unat (dim_z blockDim)]))
       [0..<unat (dim_x gridDim)])) [0..<unat (dim_y gridDim)])) [0..<unat (dim_z gridDim)])"

text \<open>
  The output buffer comes from \<^verbatim>\<open>torch::empty\<close>: every scalar starts out unwritten
  (\<open>None\<close>). A packed store at index \<open>i\<close> writes the scalars \<open>2 i\<close> and \<open>2 i + 1\<close>; a store
  outside the buffer, or of a value whose computation read outside an array, is undefined
  behaviour and makes the whole launch \<open>None\<close>.
\<close>

fun store2 :: "'s option list \<Rightarrow> 's store \<Rightarrow> 's option list option" where
  "store2 mem (i, None) = None"
| "store2 mem (i, Some v) =
     (if 2 * unat i + 1 < length mem
      then Some (mem[2 * unat i := Some (fst v), 2 * unat i + 1 := Some (snd v)])
      else None)"

fun commit :: "'s option list \<Rightarrow> 's store list \<Rightarrow> 's option list option" where
  "commit mem [] = Some mem"
| "commit mem (w # ws) = (case store2 mem w of None \<Rightarrow> None | Some mem' \<Rightarrow> commit mem' ws)"

subsection \<open>Tensors and the dispatcher\<close>

datatype ScalarType =
  kUInt8 | kInt8 | kInt16 | kInt32 | kInt64 | kFloat16 | kFloat32 | kFloat64 | kBool | kBFloat16

record 'c tensor =
  sizes :: "nat list"
  dtype :: ScalarType
  storage :: "'c list"

text \<open>\<^verbatim>\<open>t.size(i)\<close> throws when the tensor has no dimension \<open>i\<close>.\<close>

definition size_at :: "'c tensor \<Rightarrow> nat \<Rightarrow> nat option" where
  "size_at t i = (if i < length (sizes t) then Some (sizes t ! i) else None)"

text \<open>\<^verbatim>\<open>torch::empty({b, l_out, d}, u.options())\<close>\<close>

definition empty_tensor :: "nat list \<Rightarrow> ScalarType \<Rightarrow> 's option tensor" where
  "empty_tensor shape dt = \<lparr>sizes = shape, dtype = dt, storage = replicate (prod_list shape) None\<rparr>"

text \<open>
  \<^verbatim>\<open>ceil(n * 1.0 / m)\<close>, converted to \<^verbatim>\<open>unsigned\<close> by the constructor of \<^verbatim>\<open>dim3\<close>. The
  operands are 32-bit values, which a double holds exactly, and the divisors are powers of
  two, so the quotient and its ceiling are exact.
\<close>

definition ceil_div :: "uint \<Rightarrow> uint \<Rightarrow> uint" where
  "ceil_div n m = of_nat ((unat n + unat m - 1) div unat m)"

datatype kernel = Conv1d_kernel | Conv1d_kernel_k_3

fun run_kernel ::
  "kernel \<Rightarrow> packed \<Rightarrow> 's device \<Rightarrow> 's kargs \<Rightarrow> dim3 \<Rightarrow> dim3 \<Rightarrow> dim3 \<Rightarrow> 's store list" where
  "run_kernel Conv1d_kernel T dev a = conv1d_kernel T dev a"
| "run_kernel Conv1d_kernel_k_3 T dev a = conv1d_kernel_k_3 T dev a"

text \<open>The two-level \<^verbatim>\<open>if\<close> ladder of \<^verbatim>\<open>conv1d_cuda_blh\<close> (lines 161 to 247): which kernel
  it launches, at which template argument; \<open>None\<close> is the branch that prints.\<close>

definition dispatch :: "uint \<Rightarrow> ScalarType \<Rightarrow> (kernel \<times> packed) option" where
  "dispatch k dt =
     (if k = 3 then
        (if dt = kFloat16 then Some (Conv1d_kernel, Half2)
         else if dt = kBFloat16 then Some (Conv1d_kernel_k_3, BFloat162)
         else if dt = kFloat32 then Some (Conv1d_kernel_k_3, Float2)
         else None)
      else
        (if dt = kFloat16 then Some (Conv1d_kernel, Half2)
         else if dt = kBFloat16 then Some (Conv1d_kernel, BFloat162)
         else if dt = kFloat32 then Some (Conv1d_kernel, Float2)
         else None))"

text \<open>Lines 141 to 158: the sizes as \<^verbatim>\<open>uint\<close>, the launch geometry, the kernel arguments
  and the freshly allocated output.\<close>

record 's plan =
  s_gridDims :: dim3
  s_blockDims :: dim3
  s_args :: "'s kargs"
  s_k :: uint
  s_out :: "'s option tensor"

definition conv1d_setup ::
  "'s tensor \<Rightarrow> 's tensor \<Rightarrow> 's tensor \<Rightarrow> uint \<Rightarrow> 's plan option" where
  "conv1d_setup u weight bias padding =
     do {
       sb \<leftarrow> size_at u 0;
       sl \<leftarrow> size_at u 1;
       sd \<leftarrow> size_at u 2;
       sk \<leftarrow> size_at weight 0;
       let b = (of_nat sb :: uint); l = (of_nat sl :: uint); d = (of_nat sd :: uint);
           k = (of_nat sk :: uint);
           l_eff = l + 2 * padding;
           blockDims = \<lparr>dim_x = BX, dim_y = BY, dim_z = BZ\<rparr>;
           gridDims = \<lparr>dim_x = ceil_div d (BX * TILE_SIZE_X * 2),
                       dim_y = ceil_div (l_eff - k + 1) (BY * TILE_SIZE_Y),
                       dim_z = ceil_div b BZ\<rparr>;
           l_out = l + 2 * padding - k + 1;
           out = empty_tensor [unat b, unat l_out, unat d] (dtype u)
       in Some \<lparr>s_gridDims = gridDims, s_blockDims = blockDims,
                 s_args = \<lparr>k_u = storage u, k_weights = storage weight, k_bias = storage bias,
                            k_padding = padding, k_B = b, k_L = l, k_L_out = l_out,
                            k_L_eff = l_eff, k_D = d div 2, k_K = k\<rparr>,
                 s_k = k, s_out = out\<rparr>
     }"

text \<open>The stores that the call makes the device perform (none when no kernel is launched).\<close>

definition conv1d_stores ::
  "'s device \<Rightarrow> 's tensor \<Rightarrow> 's tensor \<Rightarrow> 's tensor \<Rightarrow> uint \<Rightarrow> 's store list" where
  "conv1d_stores dev u weight bias padding =
     (case conv1d_setup u weight bias padding of
        None \<Rightarrow> []
      | Some s \<Rightarrow>
          (case dispatch (s_k s) (dtype u) of
             None \<Rightarrow> []
           | Some (kern, T) \<Rightarrow>
               launch (run_kernel kern T dev (s_args s)) (s_gridDims s) (s_blockDims s)))"

datatype failure = IndexError | IllegalAccess

record 's result =
  out :: "'s option tensor"
  stdout :: "string list"
  launched :: "(kernel \<times> packed) option"

definition conv1d_cuda_blh ::
  "'s device \<Rightarrow> 's tensor \<Rightarrow> 's tensor \<Rightarrow> 's tensor \<Rightarrow> uint \<Rightarrow> failure + 's result" where
  "conv1d_cuda_blh dev u weight bias padding =
     (case conv1d_setup u weight bias padding of
        None \<Rightarrow> Inl IndexError
      | Some s \<Rightarrow>
          (case dispatch (s_k s) (dtype u) of
             None \<Rightarrow>
               Inr \<lparr>out = s_out s, stdout = [''Unsupported datatype'' @ [CHR 0x0A]],
                    launched = None\<rparr>
           | Some (kern, T) \<Rightarrow>
               (case commit (storage (s_out s))
                       (launch (run_kernel kern T dev (s_args s)) (s_gridDims s) (s_blockDims s)) of
                  None \<Rightarrow> Inl IllegalAccess
                | Some mem \<Rightarrow>
                    Inr \<lparr>out = (s_out s)\<lparr>storage := mem\<rparr>, stdout = [],
                         launched = Some (kern, T)\<rparr>)))"

subsection \<open>Reference semantics\<close>

text \<open>
  What the specification calls the unpadded depthwise convolution, on tensors read by
  coordinates. \<open>at3 t b l d\<close> is element \<open>[b, l, d]\<close> of a contiguous three-dimensional
  tensor, \<open>at2 t k d\<close> element \<open>[k, d]\<close> of a two-dimensional one.
\<close>

definition at3 :: "'c tensor \<Rightarrow> nat \<Rightarrow> nat \<Rightarrow> nat \<Rightarrow> 'c" where
  "at3 t b l d = storage t ! ((b * (sizes t ! 1) + l) * (sizes t ! 2) + d)"

definition at2 :: "'c tensor \<Rightarrow> nat \<Rightarrow> nat \<Rightarrow> 'c" where
  "at2 t k d = storage t ! (k * (sizes t ! 1) + d)"

text \<open>Explicit padding: \<open>p\<close> rows of the value \<open>z\<close> before and after each sequence.\<close>

definition pad_seq :: "'s \<Rightarrow> nat \<Rightarrow> 's tensor \<Rightarrow> 's tensor" where
  "pad_seq z p t =
     (let B = sizes t ! 0; L = sizes t ! 1; D = sizes t ! 2 in
      \<lparr>sizes = [B, L + 2 * p, D], dtype = dtype t,
       storage = concat (map (\<lambda>b. replicate (p * D) z @ take (L * D) (drop (b * (L * D)) (storage t))
                                   @ replicate (p * D) z) [0..<B])\<rparr>)"

text \<open>
  \<open>out[b, l, d] = bias[d] + \<Sum>k. x[b, l + k, d] * weight[k, d]\<close>, the sum accumulated from
  the bias in the order \<open>k = 0, 1, \<dots>\<close>, one multiply-add of the representation per tap.
\<close>

definition conv_ref_elem ::
  "'s arith \<Rightarrow> 's tensor \<Rightarrow> 's tensor \<Rightarrow> 's tensor \<Rightarrow> nat \<Rightarrow> nat \<Rightarrow> nat \<Rightarrow> 's" where
  "conv_ref_elem A x weight bias b l d =
     fold (\<lambda>k acc. fmadd A (at3 x b (l + k) d) (at2 weight k d) acc)
       [0..<sizes weight ! 0] (storage bias ! d)"

definition conv_ref :: "'s arith \<Rightarrow> 's tensor \<Rightarrow> 's tensor \<Rightarrow> 's tensor \<Rightarrow> 's option tensor" where
  "conv_ref A x weight bias =
     (let B = sizes x ! 0; L = sizes x ! 1; D = sizes x ! 2; K = sizes weight ! 0;
          L_out = L + 1 - K in
      \<lparr>sizes = [B, L_out, D], dtype = dtype x,
       storage = concat (map (\<lambda>b. concat (map (\<lambda>l.
                   map (\<lambda>d. Some (conv_ref_elem A x weight bias b l d)) [0..<D])
                   [0..<L_out])) [0..<B])\<rparr>)"

text \<open>The arithmetic that belongs to a template argument, and the template argument that
  the dispatcher picks for a supported element type.\<close>

fun ops :: "packed \<Rightarrow> 's device \<Rightarrow> 's arith" where
  "ops Half2 dev = half_ops dev"
| "ops BFloat162 dev = bfloat16_ops dev"
| "ops Float2 dev = float_ops dev"

fun packed_of :: "ScalarType \<Rightarrow> packed option" where
  "packed_of kFloat16 = Some Half2"
| "packed_of kBFloat16 = Some BFloat162"
| "packed_of kFloat32 = Some Float2"
| "packed_of _ = None"

text \<open>
  A device whose three arithmetics are exact, on the integers. Every representation
  computes exactly on integers of small magnitude, so on such data this device stands for
  all of them; it serves for the concrete runs below.
\<close>

definition exact_ops :: "int arith" where
  "exact_ops = \<lparr>fzero = 0, fmadd = (\<lambda>a b c. a * b + c)\<rparr>"

definition exact_dev :: "int device" where
  "exact_dev = \<lparr>half_ops = exact_ops, bfloat16_ops = exact_ops, float_ops = exact_ops\<rparr>"

subsection \<open>Auxiliary notions for the proofs\<close>

text \<open>The loop nest that both kernels share, with the body left open.\<close>

definition tiles ::
  "uint \<Rightarrow> uint \<Rightarrow> uint \<Rightarrow> (uint \<Rightarrow> uint \<Rightarrow> uint \<Rightarrow> 'w) \<Rightarrow> dim3 \<Rightarrow> dim3 \<Rightarrow> dim3 \<Rightarrow> 'w list" where
  "tiles D B Lo F blockDim blockIdx threadIdx =
     (let d_block = dim_x blockIdx * dim_x blockDim * TILE_SIZE_X;
          l = dim_y blockIdx * dim_y blockDim * TILE_SIZE_Y + dim_y threadIdx * TILE_SIZE_Y;
          b = dim_z blockIdx * dim_z blockDim + dim_z threadIdx
      in concat (map (\<lambda>i.
           let d = d_block + dim_x threadIdx + of_nat i * BX in
           if d < D \<and> b < B then
             concat (map (\<lambda>t. if l + of_nat t < Lo then [F b (l + of_nat t) d] else [])
               [0..<unat TILE_SIZE_Y])
           else []) [0..<unat TILE_SIZE_X]))"

text \<open>The store of the generic kernel at one output coordinate.\<close>

definition gen_store :: "packed \<Rightarrow> 's device \<Rightarrow> 's kargs \<Rightarrow> uint \<Rightarrow> uint \<Rightarrow> uint \<Rightarrow> 's store" where
  "gen_store T dev a b lt d =
     (b * k_D a * k_L_out a + lt * k_D a + d,
      do { temp_sum \<leftarrow> ld2 (k_bias a) d;
           taps T dev a b lt d [0..<unat (k_K a)] temp_sum })"

definition grid_of :: "uint \<Rightarrow> uint \<Rightarrow> uint \<Rightarrow> dim3" where
  "grid_of d Lo b = \<lparr>dim_x = ceil_div d (BX * TILE_SIZE_X * 2),
                     dim_y = ceil_div Lo (BY * TILE_SIZE_Y), dim_z = ceil_div b BZ\<rparr>"

definition blk :: dim3 where
  "blk = \<lparr>dim_x = BX, dim_y = BY, dim_z = BZ\<rparr>"


subsection \<open>Concrete inputs\<close>

text \<open>The worked example of the specification: one batch, five positions, two channels,
  three taps of weight one, no bias.\<close>

definition ex_u :: "ScalarType \<Rightarrow> int tensor" where
  "ex_u dt = \<lparr>sizes = [1, 5, 2], dtype = dt, storage = [1, 1, 2, 2, 3, 3, 4, 4, 5, 5]\<rparr>"

definition ex_weight :: "ScalarType \<Rightarrow> int tensor" where
  "ex_weight dt = \<lparr>sizes = [3, 2], dtype = dt, storage = [1, 1, 1, 1, 1, 1]\<rparr>"

definition ex_bias :: "ScalarType \<Rightarrow> int tensor" where
  "ex_bias dt = \<lparr>sizes = [2], dtype = dt, storage = [0, 0]\<rparr>"

text \<open>The kernel arguments that the dispatcher derives from it at padding 1.\<close>

definition ex_args :: "int kargs" where
  "ex_args = \<lparr>k_u = [1, 1, 2, 2, 3, 3, 4, 4, 5, 5], k_weights = [1, 1, 1, 1, 1, 1],
     k_bias = [0, 0], k_padding = 1, k_B = 1, k_L = 5, k_L_out = 5, k_L_eff = 7,
     k_D = 1, k_K = 3\<rparr>"

definition idx0 :: dim3 where
  "idx0 = \<lparr>dim_x = 0, dim_y = 0, dim_z = 0\<rparr>"

text \<open>The kernel arguments that \<^verbatim>\<open>conv1d_cuda_blh\<close> passes, as a function of the call.\<close>

definition kargs_of :: "'s tensor \<Rightarrow> 's tensor \<Rightarrow> 's tensor \<Rightarrow> uint \<Rightarrow> 's kargs" where
  "kargs_of u weight bias padding =
     \<lparr>k_u = storage u, k_weights = storage weight, k_bias = storage bias, k_padding = padding,
      k_B = of_nat (sizes u ! 0), k_L = of_nat (sizes u ! 1),
      k_L_out = of_nat (sizes u ! 1) + 2 * padding - of_nat (sizes weight ! 0) + 1,
      k_L_eff = of_nat (sizes u ! 1) + 2 * padding,
      k_D = of_nat (sizes u ! 2) div 2, k_K = of_nat (sizes weight ! 0)\<rparr>"

text \<open>A sequence of length one under three taps, without padding.\<close>

definition c6_u :: "int tensor" where
  "c6_u = \<lparr>sizes = [1, 1, 2], dtype = kFloat16, storage = [1, 1]\<rparr>"

definition c6_weight :: "int tensor" where
  "c6_weight = \<lparr>sizes = [3, 2], dtype = kFloat16, storage = [1, 1, 1, 1, 1, 1]\<rparr>"

definition c6_bias :: "int tensor" where
  "c6_bias = \<lparr>sizes = [2], dtype = kFloat16, storage = [0, 0]\<rparr>"

text \<open>
  The shapes that the specification supposes: a contiguous input \<open>[B, L, D]\<close> with \<open>D\<close> even,
  a weight \<open>[K, D]\<close> and a bias \<open>[D]\<close>.
\<close>

definition well_formed :: "'s tensor \<Rightarrow> 's tensor \<Rightarrow> 's tensor \<Rightarrow> bool" where
  "well_formed u weight bias \<longleftrightarrow>
     length (sizes u) = 3 \<and> length (sizes weight) = 2 \<and> sizes bias = [sizes u ! 2] \<and>
     sizes weight ! 1 = sizes u ! 2 \<and> even (sizes u ! 2) \<and>
     length (storage u) = sizes u ! 0 * sizes u ! 1 * sizes u ! 2 \<and>
     length (storage weight) = sizes weight ! 0 * sizes u ! 2 \<and>
     length (storage bias) = sizes u ! 2"

text \<open>
  The sizes for which none of the \<^verbatim>\<open>uint\<close> computations of the call wraps around: the
  sizes themselves and the padded length plus one fit 32 bits, and the input, the output and the
  weight have at most \<open>2\<^sup>3\<^sup>2\<close> packed elements each, so that every flat index fits.
\<close>

definition fits_uint :: "'s tensor \<Rightarrow> 's tensor \<Rightarrow> uint \<Rightarrow> bool" where
  "fits_uint u weight padding \<longleftrightarrow>
     sizes u ! 0 < 2 ^ 32 \<and> sizes u ! 2 < 2 ^ 32 \<and>
     sizes u ! 1 + 2 * unat padding + 1 < 2 ^ 32 \<and>
     sizes u ! 0 * sizes u ! 1 * (sizes u ! 2 div 2) \<le> 2 ^ 32 \<and>
     sizes u ! 0 * (sizes u ! 1 + 2 * unat padding + 1 - sizes weight ! 0) * (sizes u ! 2 div 2)
       \<le> 2 ^ 32 \<and>
     sizes weight ! 0 * (sizes u ! 2 div 2) \<le> 2 ^ 32"







section \<open>Properties\<close>

subsection \<open>The sampler and the two kernels\<close>

lemma get_u_unfold:
  "get_u T dev u L_eff l p b k d L D K =
     (if l + k < p \<or> l + k > L_eff - (p + 1) then Some (zero2 T dev)
      else ld2 u (b * L * D + (l + k - p) * D + d))"
  by (cases T) (simp_all add: get_u_half2_def get_u_bfloat162_def get_u_float2_def)

lemma zero2_ops: "zero2 T dev = (fzero (ops T dev), fzero (ops T dev))"
  by (cases T) (simp_all add: float2half2_rn_0_def float2bfloat162_rn_0_def make_float2_0_def)

lemma hfma2_ops:
  "hfma2 T dev a b c =
     (fmadd (ops T dev) (fst a) (fst b) (fst c), fmadd (ops T dev) (snd a) (snd b) (snd c))"
  by (cases T) (simp_all add: hfma2_half2_def hfma2_bfloat162_def hfma2_float2_def)


lemma upt_3: "[0..<3] = [0, Suc 0, 2]"
  by (simp add: upt_rec)

lemma conv1d_k_3_taps:
  "k_K a = 3 \<Longrightarrow>
   conv1d_k_3 T dev (k_u a) (k_weights a) (k_bias a) (k_padding a) b l d t
      (k_L a) (k_D a) (k_K a) (k_L_eff a) (k_L_out a) =
   (b * k_D a * k_L_out a + (l + t) * k_D a + d,
    do { temp_sum \<leftarrow> ld2 (k_bias a) d;
         taps T dev a b (l + t) d [0..<unat (k_K a)] temp_sum })"
  by (simp add: conv1d_k_3_def upt_3 Let_def)

lemma kernel_k_3_generic:
  assumes "k_K a = 3"
  shows "conv1d_kernel_k_3 T dev a = conv1d_kernel T dev a"
  by (intro ext) (simp only: conv1d_kernel_k_3_def conv1d_kernel_def conv1d_k_3_taps [OF assms])

text \<open>
  C3. When the kernel width is 3, the specialised kernel and the generic kernel perform
  the same stores in every thread, for every representation (in particular the two that
  the dispatcher sends to the specialised kernel), so a launch of either on the same grid
  leaves the same output buffer.
\<close>

theorem k_3_equivalence:
  assumes "k_K a = 3"
  shows "conv1d_kernel_k_3 T dev a blockDim blockIdx threadIdx =
           conv1d_kernel T dev a blockDim blockIdx threadIdx \<and>
         commit mem (launch (conv1d_kernel_k_3 T dev a) gridDim blockDim) =
           commit mem (launch (conv1d_kernel T dev a) gridDim blockDim)"
  using kernel_k_3_generic [OF assms, of T dev] by simp

theorem k_3_equivalence_witness:
  "k_K ex_args = 3 \<and>
   conv1d_kernel_k_3 Float2 exact_dev ex_args blk idx0 idx0 =
     [(0, Some (3, 3)), (1, Some (6, 6)), (2, Some (9, 9)), (3, Some (12, 12))] \<and>
   conv1d_kernel Float2 exact_dev ex_args blk idx0 idx0 =
     [(0, Some (3, 3)), (1, Some (6, 6)), (2, Some (9, 9)), (3, Some (12, 12))]"
proof -
  have k: "k_K ex_args = 3" by (simp add: ex_args_def)
  have g: "conv1d_kernel Float2 exact_dev ex_args blk idx0 idx0 =
     [(0, Some (3, 3)), (1, Some (6, 6)), (2, Some (9, 9)), (3, Some (12, 12))]"
    by code_simp
  from k_3_equivalence [OF k, of Float2 exact_dev blk idx0 idx0] g k show ?thesis by simp
qed

subsection \<open>The dispatcher\<close>

lemma conv1d_cuda_blh_launched:
  assumes "conv1d_cuda_blh dev u weight bias padding = Inr r"
  shows "launched r = dispatch (of_nat (sizes weight ! 0)) (dtype u)"
  using assms
  by (auto simp: conv1d_cuda_blh_def conv1d_setup_def size_at_def Let_def
      split: option.splits if_splits prod.splits)

text \<open>
  C4. The dispatcher launches the specialised width-3 kernel exactly when \<open>k = 3\<close> and the
  element type is bfloat16 or float32; for every other combination with a supported element
  type it launches the generic kernel; float16 goes to the generic kernel also when
  \<open>k = 3\<close>; an element type outside the three launches nothing. What a returning call has
  launched is what this selection says.
\<close>

theorem dispatch_selection:
  "(dispatch k dt = Some (Conv1d_kernel_k_3, T) \<longleftrightarrow>
      k = 3 \<and> (dt = kBFloat16 \<and> T = BFloat162 \<or> dt = kFloat32 \<and> T = Float2)) \<and>
   (dispatch k dt = Some (Conv1d_kernel, T) \<longleftrightarrow>
      dt = kFloat16 \<and> T = Half2 \<or>
      k \<noteq> 3 \<and> (dt = kBFloat16 \<and> T = BFloat162 \<or> dt = kFloat32 \<and> T = Float2)) \<and>
   (dispatch k dt = None \<longleftrightarrow> dt \<notin> {kFloat16, kBFloat16, kFloat32}) \<and>
   dispatch 3 kFloat16 = Some (Conv1d_kernel, Half2) \<and>
   (conv1d_cuda_blh dev u weight bias padding = Inr r \<longrightarrow>
      launched r = dispatch (of_nat (sizes weight ! 0)) (dtype u))"
  using conv1d_cuda_blh_launched [of dev u weight bias padding r]
  by (auto simp: dispatch_def)

lemma ex_run_bfloat16:
  "conv1d_cuda_blh exact_dev (ex_u kBFloat16) (ex_weight kBFloat16) (ex_bias kBFloat16) 1 =
      Inr \<lparr>out = \<lparr>sizes = [1, 5, 2], dtype = kBFloat16,
                    storage = map Some [3, 3, 6, 6, 9, 9, 12, 12, 9, 9]\<rparr>,
            stdout = [], launched = Some (Conv1d_kernel_k_3, BFloat162)\<rparr>"
  by code_simp

theorem dispatch_selection_witness:
  "dispatch 3 kBFloat16 = Some (Conv1d_kernel_k_3, BFloat162) \<and>
   dispatch 3 kFloat16 \<noteq> Some (Conv1d_kernel_k_3, Half2) \<and>
   launched \<lparr>out = \<lparr>sizes = [1, 5, 2], dtype = kBFloat16,
                     storage = map Some [3, 3, 6, 6, 9, 9, 12, 12, 9, 9 :: int]\<rparr>,
             stdout = [], launched = Some (Conv1d_kernel_k_3, BFloat162)\<rparr> =
     dispatch (of_nat (sizes (ex_weight kBFloat16) ! 0)) (dtype (ex_u kBFloat16))"
  using dispatch_selection [of 3 kBFloat16 BFloat162 exact_dev "ex_u kBFloat16"
        "ex_weight kBFloat16" "ex_bias kBFloat16" 1
        "\<lparr>out = \<lparr>sizes = [1, 5, 2], dtype = kBFloat16,
                    storage = map Some [3, 3, 6, 6, 9, 9, 12, 12, 9, 9]\<rparr>,
          stdout = [], launched = Some (Conv1d_kernel_k_3, BFloat162)\<rparr>"] ex_run_bfloat16
  by simp

subsection \<open>Which coordinates a launch visits\<close>

lemma conv1d_kernel_tiles:
  "conv1d_kernel T dev a = tiles (k_D a) (k_B a) (k_L_eff a - k_K a + 1) (gen_store T dev a)"
  by (intro ext) (simp only: conv1d_kernel_def tiles_def gen_store_def)



lemma unat_consts [simp]:
  "unat BX = 512" "unat BY = 1" "unat BZ = 1" "unat TILE_SIZE_X = 2" "unat TILE_SIZE_Y = 4"
  by (simp_all add: BX_def BY_def BZ_def TILE_SIZE_X_def TILE_SIZE_Y_def)

lemma mem_concat_upt: "w \<in> set (concat (map f [0..<n])) \<longleftrightarrow> (\<exists>i<n. w \<in> set (f i))"
  by auto

lemma mem_if_list: "w \<in> set (if P then xs else []) \<longleftrightarrow> P \<and> w \<in> set xs"
  by simp

lemma tiles_mem:
  "w \<in> set (tiles D B Lo F bd bi ti) \<longleftrightarrow>
     (\<exists>i<2. \<exists>t<4.
        dim_x bi * dim_x bd * TILE_SIZE_X + dim_x ti + of_nat i * BX < D \<and>
        dim_z bi * dim_z bd + dim_z ti < B \<and>
        dim_y bi * dim_y bd * TILE_SIZE_Y + dim_y ti * TILE_SIZE_Y + of_nat t < Lo \<and>
        w = F (dim_z bi * dim_z bd + dim_z ti)
              (dim_y bi * dim_y bd * TILE_SIZE_Y + dim_y ti * TILE_SIZE_Y + of_nat t)
              (dim_x bi * dim_x bd * TILE_SIZE_X + dim_x ti + of_nat i * BX))"
  unfolding tiles_def Let_def mem_concat_upt mem_if_list unat_consts
  by auto

lemma launch_mem:
  "w \<in> set (launch k g bd) \<longleftrightarrow>
     (\<exists>jz<unat (dim_z g). \<exists>jy<unat (dim_y g). \<exists>jx<unat (dim_x g).
      \<exists>tz<unat (dim_z bd). \<exists>ty<unat (dim_y bd). \<exists>tx<unat (dim_x bd).
        w \<in> set (k bd \<lparr>dim_x = of_nat jx, dim_y = of_nat jy, dim_z = of_nat jz\<rparr>
                       \<lparr>dim_x = of_nat tx, dim_y = of_nat ty, dim_z = of_nat tz\<rparr>))"
  unfolding launch_def mem_concat_upt ..

lemma unat_of_nat32: "n < 2 ^ 32 \<Longrightarrow> unat (of_nat n :: uint) = n"
  by (simp add: unat_of_nat)

lemma unat_lt32: "unat (w :: uint) < 4294967296"
  using unsigned_less [of w, where 'a = nat] by simp

lemma split_1024: "n div 1024 * 1024 + n mod 512 + n mod 1024 div 512 * 512 = (n::nat)"
proof -
  have "n mod 1024 mod 512 = n mod 512" by (simp add: mod_mod_cancel)
  then have "n mod 1024 = n mod 1024 div 512 * 512 + n mod 512"
    using div_mult_mod_eq [of "n mod 1024" 512] by simp
  then show ?thesis using div_mult_mod_eq [of n 1024] by linarith
qed

lemma block_x_bound: "c < d div 2 \<Longrightarrow> c div 1024 < (d + 2047) div 2048" for c d :: nat
proof -
  assume "c < d div 2"
  then have "2 * c + 2 \<le> d" by linarith
  moreover have "c div 1024 * 1024 \<le> c" by simp
  ultimately have "c div 1024 * 2048 + 2048 \<le> d + 2047" by linarith
  then have "Suc (c div 1024) * 2048 \<le> d + 2047" by simp
  then have "Suc (c div 1024) \<le> (d + 2047) div 2048"
    by (simp add: less_eq_div_iff_mult_less_eq)
  then show ?thesis by simp
qed

lemma block_y_bound: "l < Lo \<Longrightarrow> l div 4 < (Lo + 3) div 4" for l Lo :: nat
  by linarith

lemma unat_grid_x: "unat (ceil_div d (BX * TILE_SIZE_X * 2)) = (unat d + 2047) div 2048"
proof -
  have "(unat d + 2047) div 2048 < 2 ^ 32" using unat_lt32 [of d] by simp
  then show ?thesis
    by (simp add: ceil_div_def BX_def TILE_SIZE_X_def unat_of_nat32)
qed

lemma unat_grid_y: "unat (ceil_div Lo (BY * TILE_SIZE_Y)) = (unat Lo + 3) div 4"
proof -
  have "(unat Lo + 3) div 4 < 2 ^ 32" using unat_lt32 [of Lo] by simp
  then show ?thesis
    by (simp add: ceil_div_def BY_def TILE_SIZE_Y_def unat_of_nat32)
qed

lemma unat_grid_z: "unat (ceil_div b BZ) = unat b"
  by (simp add: ceil_div_def BZ_def)


text \<open>The grid that the dispatcher computes reaches every coordinate below the bounds, and
  the bounds checks let nothing else through.\<close>

lemma launch_tiles_mem:
  "w \<in> set (launch (tiles (d div 2) B Lo F) (grid_of d Lo B) blk) \<longleftrightarrow>
     (\<exists>b l c. b < B \<and> l < Lo \<and> c < d div 2 \<and> w = F b l c)"
proof
  assume "w \<in> set (launch (tiles (d div 2) B Lo F) (grid_of d Lo B) blk)"
  then show "\<exists>b l c. b < B \<and> l < Lo \<and> c < d div 2 \<and> w = F b l c"
    unfolding launch_mem tiles_mem by blast
next
  assume "\<exists>b l c. b < B \<and> l < Lo \<and> c < d div 2 \<and> w = F b l c"
  then obtain b l c where b: "b < B" and l: "l < Lo" and c: "c < d div 2" and w: "w = F b l c"
    by blast
  define jz where "jz = unat b"
  define jy where "jy = unat l div 4"
  define t where "t = unat l mod 4"
  define jx where "jx = unat c div 1024"
  define i where "i = unat c mod 1024 div 512"
  define tx where "tx = unat c mod 512"
  have eb: "(of_nat jz :: uint) * BZ + of_nat 0 = b"
    by (simp add: jz_def BZ_def)
  have "(of_nat (jy * 4 + t) :: uint) = l" by (simp add: jy_def t_def)
  then have el: "(of_nat jy :: uint) * BY * TILE_SIZE_Y + of_nat 0 * TILE_SIZE_Y + of_nat t = l"
    by (simp add: BY_def TILE_SIZE_Y_def)
  have "jx * 1024 + tx + i * 512 = unat c"
    unfolding jx_def tx_def i_def by (rule split_1024)
  then have "(of_nat (jx * 1024 + tx + i * 512) :: uint) = c" by simp
  then have ec: "(of_nat jx :: uint) * BX * TILE_SIZE_X + of_nat tx + of_nat i * BX = c"
    by (simp add: BX_def TILE_SIZE_X_def mult.commute)
  have "unat c < unat d div 2" using c by (simp add: word_less_nat_alt unat_div)
  then have jx: "jx < unat (dim_x (grid_of d Lo B))"
    unfolding jx_def grid_of_def by (simp add: unat_grid_x block_x_bound)
  have "unat l < unat Lo" using l by (simp add: word_less_nat_alt)
  then have jy: "jy < unat (dim_y (grid_of d Lo B))"
    unfolding jy_def grid_of_def by (simp add: unat_grid_y block_y_bound)
  have jz: "jz < unat (dim_z (grid_of d Lo B))"
    using b unfolding jz_def grid_of_def by (simp add: unat_grid_z word_less_nat_alt)
  have i: "i < 2" unfolding i_def by (simp add: less_mult_imp_div_less)
  have t: "t < 4" unfolding t_def by simp
  have tx: "tx < unat (dim_x blk)" unfolding tx_def blk_def by simp
  have z: "(0::nat) < unat (dim_y blk)" "(0::nat) < unat (dim_z blk)" by (simp_all add: blk_def)
  have "w \<in> set (tiles (d div 2) B Lo F blk
           \<lparr>dim_x = of_nat jx, dim_y = of_nat jy, dim_z = of_nat jz\<rparr>
           \<lparr>dim_x = of_nat tx, dim_y = of_nat 0, dim_z = of_nat 0\<rparr>)"
    unfolding tiles_mem
    apply (rule exI[of _ i], rule conjI[OF i], rule exI[of _ t], rule conjI[OF t])
    using eb el ec b l c w by (simp add: blk_def)
  with jx jy jz tx z show "w \<in> set (launch (tiles (d div 2) B Lo F) (grid_of d Lo B) blk)"
    unfolding launch_mem by blast
qed





subsection \<open>Index arithmetic\<close>

lemma upper_simp: "L + 2 * p - (p + 1) = L + p - (1::uint)"
  by simp

lemma unat_upper:
  fixes p L :: uint
  assumes "0 < unat L + unat p"
  shows "unat (L + p - 1) = (unat L + unat p - 1) mod 2 ^ 32"
proof -
  have "Suc 0 \<le> unat L + unat p" using assms by linarith
  then have "(of_nat (unat L + unat p - Suc 0) :: uint) = of_nat (unat L + unat p) - of_nat (Suc 0)"
    by (rule of_nat_diff)
  then have "L + p - 1 = of_nat (unat L + unat p - 1)" by simp
  then show ?thesis by (simp only: unat_of_nat) simp
qed

lemma pos_in_range:
  fixes s p L :: uint
  assumes "p \<le> s" "s \<le> L + 2 * p - (p + 1)" "0 < unat L + unat p"
  shows "unat (s - p) < unat L"
proof -
  have s: "unat s \<le> (unat L + unat p - 1) mod 2 ^ 32"
    using assms(2) unat_upper [OF assms(3)] by (simp add: upper_simp word_le_nat_alt)
  have ps: "unat p \<le> unat s" using assms(1) by (simp add: word_le_nat_alt)
  have sub: "unat (s - p) = unat s - unat p" using assms(1) by (simp add: unat_sub)
  show ?thesis
  proof (cases "unat L + unat p - 1 < 2 ^ 32")
    case True
    then have "unat s \<le> unat L + unat p - 1" using s by simp
    then show ?thesis using ps sub assms(3) by linarith
  next
    case False
    then have "(unat L + unat p - 1) mod 2 ^ 32 = (unat L + unat p - 1 - 2 ^ 32) mod 2 ^ 32"
      by (simp add: le_mod_geq)
    also have "\<dots> \<le> unat L + unat p - 1 - 2 ^ 32" by (rule mod_less_eq_dividend)
    also have "\<dots> < unat p" using unat_lt32 [of L] False by simp
    finally show ?thesis using s ps by simp
  qed
qed

lemma row_major_bound:
  fixes b j d :: nat
  assumes "b < B" "j < L" "d < D"
  shows "(b * L + j) * D + d < B * L * D"
proof -
  have "b * L + j < Suc b * L" using assms(2) by simp
  also have "\<dots> \<le> B * L" using assms(1) by (intro mult_le_mono1) simp
  finally have "Suc (b * L + j) \<le> B * L" by simp
  then have "Suc (b * L + j) * D \<le> B * L * D" by (rule mult_le_mono1)
  moreover have "(b * L + j) * D + d < Suc (b * L + j) * D" using assms(3) by simp
  ultimately show ?thesis by linarith
qed

lemma row_major_inj:
  fixes b j d b' j' d' :: nat
  assumes "(b * L + j) * D + d = (b' * L + j') * D + d'" "j < L" "j' < L" "d < D" "d' < D"
  shows "b = b' \<and> j = j' \<and> d = d'"
proof -
  from assms(1) have "((b * L + j) * D + d) mod D = ((b' * L + j') * D + d') mod D" by simp
  then have d: "d = d'" using assms(4,5) by simp
  from assms(1) have "((b * L + j) * D + d) div D = ((b' * L + j') * D + d') div D" by simp
  then have e: "b * L + j = b' * L + j'" using assms(4,5) by simp
  then have "(b * L + j) mod L = (b' * L + j') mod L" by simp
  then have j: "j = j'" using assms(2,3) by simp
  from e have "(b * L + j) div L = (b' * L + j') div L" by simp
  then have "b = b'" using assms(2,3) by simp
  with d j show ?thesis by simp
qed

lemma unat_add_le': "unat (x + y :: uint) \<le> unat x + unat y"
  by (simp add: unat_word_ariths)

lemma unat_mult_le': "unat (x * y :: uint) \<le> unat x * unat y"
  by (simp add: unat_word_ariths)

lemma unat_flat_le:
  "unat (b * L * D + j * D + d :: uint) \<le> (unat b * unat L + unat j) * unat D + unat d"
proof -
  have "unat (b * L * D) \<le> unat b * unat L * unat D"
    using unat_mult_le' [of "b * L" D] unat_mult_le' [of b L]
    by (meson le_trans mult_le_mono1)
  moreover have "unat (j * D) \<le> unat j * unat D" by (rule unat_mult_le')
  moreover have "unat (b * L * D + j * D + d) \<le> unat (b * L * D) + unat (j * D) + unat d"
    using unat_add_le' [of "b * L * D + j * D" d] unat_add_le' [of "b * L * D" "j * D"] by linarith
  ultimately show ?thesis by (simp add: add_mult_distrib)
qed

lemma unat_flat_eq:
  assumes "(unat b * unat L + unat j) * unat D + unat d < 2 ^ 32"
  shows "unat (b * L * D + j * D + d :: uint) = (unat b * unat L + unat j) * unat D + unat d"
proof -
  have "b * L * D + j * D + d = of_nat ((unat b * unat L + unat j) * unat D + unat d)"
    by (simp add: algebra_simps)
  then show ?thesis using assms by (simp only: unat_of_nat32)
qed

lemma ld2_Some: "2 * unat i + 1 < length a \<Longrightarrow> ld2 a i = Some (a ! (2 * unat i), a ! (2 * unat i + 1))"
  by (simp add: ld2_def)

lemma get_u_no_fault:
  assumes "d < D" "b < B" "0 < unat L + unat p" "L_eff = L + 2 * p"
    "2 * (unat B * unat L * unat D) \<le> length u"
  shows "get_u T dev u L_eff lt p b k d L D K \<noteq> None"
proof (cases "lt + k < p \<or> lt + k > L_eff - (p + 1)")
  case True
  then show ?thesis by (simp add: get_u_unfold)
next
  case False
  then have "p \<le> lt + k" "lt + k \<le> L + 2 * p - (p + 1)" using assms(4) by auto
  then have "unat (lt + k - p) < unat L" using assms(3) by (rule pos_in_range)
  moreover have "unat b < unat B" "unat d < unat D" using assms(1,2) by (simp_all add: word_less_nat_alt)
  ultimately have "(unat b * unat L + unat (lt + k - p)) * unat D + unat d < unat B * unat L * unat D"
    by (intro row_major_bound)
  then have "2 * unat (b * L * D + (lt + k - p) * D + d) + 1 < length u"
    using unat_flat_le [of b L D "lt + k - p" d] assms(5) by linarith
  then show ?thesis using False by (simp add: get_u_unfold ld2_def)
qed

text \<open>
  C10. At a coordinate that a kernel computes (packed channel \<open>d < D\<close>, batch \<open>b < B\<close>, tap
  \<open>k < K\<close> with \<open>K \<le> L + 2 p\<close>), when the sampler takes its non-zero branch the guard gives
  \<open>p \<le> l + k \<le> L_eff - (p + 1)\<close>, the position \<open>l + k - p\<close> is below \<open>L\<close>, and the flat
  index lies inside an input of \<open>B * L * D\<close> packed elements: the read returns a value, the
  out-of-range branch is not taken. All of it in the 32-bit arithmetic of the source.
\<close>

theorem sampler_in_bounds:
  assumes "d < D" and "b < B" and "k < K" and "unat K \<le> unat L + 2 * unat p"
    and "L_eff = L + 2 * p" and "2 * (unat B * unat L * unat D) \<le> length u"
    and "\<not> (lt + k < p \<or> lt + k > L_eff - (p + 1))"
  shows "p \<le> lt + k \<and> lt + k \<le> L_eff - (p + 1) \<and> unat (lt + k - p) < unat L \<and>
         2 * unat (b * L * D + (lt + k - p) * D + d) + 1 < length u \<and>
         get_u T dev u L_eff lt p b k d L D K =
           Some (u ! (2 * unat (b * L * D + (lt + k - p) * D + d)),
                 u ! (2 * unat (b * L * D + (lt + k - p) * D + d) + 1))"
proof -
  have "0 < unat K" using assms(3) by (simp add: word_less_nat_alt)
  then have pos: "0 < unat L + unat p" using assms(4) by linarith
  have g: "p \<le> lt + k" "lt + k \<le> L + 2 * p - (p + 1)" using assms(5,7) by auto
  then have j: "unat (lt + k - p) < unat L" using pos by (rule pos_in_range)
  moreover have "unat b < unat B" "unat d < unat D"
    using assms(1,2) by (simp_all add: word_less_nat_alt)
  ultimately have "(unat b * unat L + unat (lt + k - p)) * unat D + unat d < unat B * unat L * unat D"
    by (intro row_major_bound)
  then have i: "2 * unat (b * L * D + (lt + k - p) * D + d) + 1 < length u"
    using unat_flat_le [of b L D "lt + k - p" d] assms(6) by linarith
  show ?thesis using g j i assms(5,7) by (simp add: get_u_unfold ld2_def)
qed

theorem sampler_in_bounds_witness:
  "(0::uint) < 1 \<and> (1::uint) < 3 \<and> unat (3::uint) \<le> unat (5::uint) + 2 * unat (1::uint) \<and>
   (7::uint) = 5 + 2 * 1 \<and>
   2 * (unat (1::uint) * unat (5::uint) * unat (1::uint)) \<le> length (k_u ex_args) \<and>
   \<not> ((0::uint) + 1 < 1 \<or> (0::uint) + 1 > 7 - (1 + 1)) \<and>
   unat ((0::uint) + 1 - 1) < unat (5::uint) \<and>
   get_u Float2 exact_dev (k_u ex_args) 7 0 1 0 1 0 5 1 3 = Some (1, 1)"
  using sampler_in_bounds [of 0 1 0 1 1 3 5 1 7 "k_u ex_args" 0 Float2 exact_dev]
  by (simp add: ex_args_def)

subsection \<open>No read leaves its array\<close>

lemma taps_no_fault:
  assumes "d < k_D a" "b < k_B a" "0 < unat (k_L a) + unat (k_padding a)"
    "k_L_eff a = k_L a + 2 * k_padding a"
    "2 * (unat (k_B a) * unat (k_L a) * unat (k_D a)) \<le> length (k_u a)"
    "2 * (unat (k_K a) * unat (k_D a)) \<le> length (k_weights a)"
    "\<forall>k\<in>set ks. k < unat (k_K a)"
  shows "taps T dev a b lt d ks acc \<noteq> None"
  using assms(7)
proof (induction ks arbitrary: acc)
  case Nil
  then show ?case by simp
next
  case (Cons k ks)
  have k: "k < unat (k_K a)" using Cons.prems by simp
  obtain uk where uk: "get_u T dev (k_u a) (k_L_eff a) lt (k_padding a) b (of_nat k) d
       (k_L a) (k_D a) (k_K a) = Some uk"
    using get_u_no_fault [OF assms(1,2,3,4,5), of T dev lt "of_nat k" "k_K a"] by auto
  have "unat (of_nat k :: uint) = k" using k unat_lt32 [of "k_K a"] by (simp add: unat_of_nat32)
  moreover have "unat d < unat (k_D a)" using assms(1) by (simp add: word_less_nat_alt)
  ultimately have "unat (of_nat k :: uint) * unat (k_D a) + unat d < unat (k_K a) * unat (k_D a)"
    using k row_major_bound [of 0 1 k "unat (k_K a)" "unat d" "unat (k_D a)"] by simp
  moreover have "unat (of_nat k * k_D a + d) \<le> unat (of_nat k :: uint) * unat (k_D a) + unat d"
    using unat_add_le' [of "of_nat k * k_D a" d] unat_mult_le' [of "of_nat k" "k_D a"] by linarith
  ultimately have "2 * unat (of_nat k * k_D a + d) + 1 < length (k_weights a)"
    using assms(6) by linarith
  then obtain wk where wk: "ld2 (k_weights a) (of_nat k * k_D a + d) = Some wk"
    by (simp add: ld2_def)
  show ?case using uk wk Cons.IH [of "hfma2 T dev uk wk acc"] Cons.prems by simp
qed

lemma gen_store_no_fault:
  assumes "d < k_D a" "b < k_B a" "0 < unat (k_K a) \<longrightarrow> 0 < unat (k_L a) + unat (k_padding a)"
    "k_L_eff a = k_L a + 2 * k_padding a"
    "2 * (unat (k_B a) * unat (k_L a) * unat (k_D a)) \<le> length (k_u a)"
    "2 * (unat (k_K a) * unat (k_D a)) \<le> length (k_weights a)"
    "2 * unat (k_D a) \<le> length (k_bias a)"
  shows "\<exists>v. snd (gen_store T dev a b lt d) = Some v"
proof -
  have "unat d < unat (k_D a)" using assms(1) by (simp add: word_less_nat_alt)
  then obtain t where t: "ld2 (k_bias a) d = Some t" using assms(7) by (simp add: ld2_def)
  have "taps T dev a b lt d [0..<unat (k_K a)] t \<noteq> None"
  proof (cases "unat (k_K a) = 0")
    case True
    then show ?thesis by simp
  next
    case False
    then have "0 < unat (k_L a) + unat (k_padding a)" using assms(3) by simp
    then show ?thesis using assms by (intro taps_no_fault) simp_all
  qed
  then show ?thesis using t by (auto simp: gen_store_def)
qed

subsection \<open>Committing the stores of a launch\<close>

text \<open>When the stores are in range and stores to the same index carry the same value, the
  buffer after the launch holds each stored value at its index and is unchanged elsewhere,
  whatever the order of the stores.\<close>

lemma commit_consistent:
  assumes "\<And>w. w \<in> set ws \<Longrightarrow> \<exists>v. snd w = Some v \<and> 2 * unat (fst w) + 1 < length mem"
    and "\<And>w1 w2. w1 \<in> set ws \<Longrightarrow> w2 \<in> set ws \<Longrightarrow> fst w1 = fst w2 \<Longrightarrow> snd w1 = snd w2"
  shows "\<exists>mem'. commit mem ws = Some mem' \<and> length mem' = length mem \<and>
           (\<forall>i v. (i, Some v) \<in> set ws \<longrightarrow>
              mem' ! (2 * unat i) = Some (fst v) \<and> mem' ! (2 * unat i + 1) = Some (snd v)) \<and>
           (\<forall>j<length mem. (\<forall>w\<in>set ws. unat (fst w) \<noteq> j div 2) \<longrightarrow> mem' ! j = mem ! j)"
  using assms
proof (induction ws arbitrary: mem)
  case Nil
  show ?case by simp
next
  case (Cons w ws)
  have "\<exists>v. snd w = Some v \<and> 2 * unat (fst w) + 1 < length mem"
    by (rule Cons.prems(1)) simp
  then obtain v where v: "snd w = Some v" and inb': "2 * unat (fst w) + 1 < length mem"
    by blast
  define i where "i = fst w"
  have w: "w = (i, Some v)" using v by (simp add: i_def prod_eq_iff)
  have inb: "2 * unat i + 1 < length mem" using inb' by (simp add: i_def)
  define mem1 where "mem1 = mem[2 * unat i := Some (fst v), 2 * unat i + 1 := Some (snd v)]"
  have len1: "length mem1 = length mem" by (simp add: mem1_def)
  have st: "store2 mem w = Some mem1" using w inb by (simp add: mem1_def)
  have "\<exists>mem'. commit mem1 ws = Some mem' \<and> length mem' = length mem1 \<and>
           (\<forall>i v. (i, Some v) \<in> set ws \<longrightarrow>
              mem' ! (2 * unat i) = Some (fst v) \<and> mem' ! (2 * unat i + 1) = Some (snd v)) \<and>
           (\<forall>j<length mem1. (\<forall>w\<in>set ws. unat (fst w) \<noteq> j div 2) \<longrightarrow> mem' ! j = mem1 ! j)"
  proof (rule Cons.IH)
    fix w' assume "w' \<in> set ws"
    then show "\<exists>v. snd w' = Some v \<and> 2 * unat (fst w') + 1 < length mem1"
      using Cons.prems(1) [of w'] len1 by simp
  next
    fix w1 w2 assume "w1 \<in> set ws" "w2 \<in> set ws" "fst w1 = fst w2"
    then show "snd w1 = snd w2" using Cons.prems(2) [of w1 w2] by simp
  qed
  then obtain mem' where c: "commit mem1 ws = Some mem'" and len: "length mem' = length mem1"
    and val: "\<And>i v. (i, Some v) \<in> set ws \<Longrightarrow>
              mem' ! (2 * unat i) = Some (fst v) \<and> mem' ! (2 * unat i + 1) = Some (snd v)"
    and frame: "\<And>j. j < length mem1 \<Longrightarrow> (\<forall>w\<in>set ws. unat (fst w) \<noteq> j div 2) \<Longrightarrow> mem' ! j = mem1 ! j"
    by blast
  have here: "mem' ! (2 * unat i) = Some (fst v) \<and> mem' ! (2 * unat i + 1) = Some (snd v)"
  proof (cases "\<exists>w2\<in>set ws. fst w2 = i")
    case True
    then obtain w2 where w2: "w2 \<in> set ws" "fst w2 = i" by blast
    then have "snd w2 = Some v" using Cons.prems(2) [of w2 w] w by simp
    then have "(i, Some v) \<in> set ws" using w2 by (cases w2) auto
    then show ?thesis by (rule val)
  next
    case False
    then have no: "\<forall>w\<in>set ws. unat (fst w) \<noteq> unat i"
      by (auto simp: word_unat_eq_iff)
    have "mem' ! (2 * unat i) = mem1 ! (2 * unat i)"
      using no inb len1 by (intro frame) simp_all
    moreover have "mem' ! (2 * unat i + 1) = mem1 ! (2 * unat i + 1)"
      using no inb len1 by (intro frame) simp_all
    ultimately show ?thesis using inb by (simp add: mem1_def)
  qed
  have c1: "commit mem (w # ws) = Some mem'" using st c by simp
  have c2: "length mem' = length mem" using len len1 by simp
  have c3: "\<forall>i' v'. (i', Some v') \<in> set (w # ws) \<longrightarrow>
              mem' ! (2 * unat i') = Some (fst v') \<and> mem' ! (2 * unat i' + 1) = Some (snd v')"
  proof (intro allI impI)
    fix i' v' assume "(i', Some v') \<in> set (w # ws)"
    then consider "i' = i \<and> v' = v" | "(i', Some v') \<in> set ws" using w by auto
    then show "mem' ! (2 * unat i') = Some (fst v') \<and> mem' ! (2 * unat i' + 1) = Some (snd v')"
    proof cases
      case 1
      then show ?thesis using here by simp
    next
      case 2
      then show ?thesis by (rule val)
    qed
  qed
  have c4: "\<forall>j<length mem. (\<forall>w\<in>set (w # ws). unat (fst w) \<noteq> j div 2) \<longrightarrow> mem' ! j = mem ! j"
  proof (intro allI impI)
    fix j assume j: "j < length mem" and no: "\<forall>w\<in>set (w # ws). unat (fst w) \<noteq> j div 2"
    then have "unat i \<noteq> j div 2" using w by simp
    then have "j \<noteq> 2 * unat i" "j \<noteq> 2 * unat i + 1" by auto
    then have "mem1 ! j = mem ! j" by (simp add: mem1_def)
    moreover have "mem' ! j = mem1 ! j" using j no len1 by (intro frame) simp_all
    ultimately show "mem' ! j = mem ! j" by simp
  qed
  show ?case
    by (rule exI [of _ mem']) (rule conjI [OF c1 conjI [OF c2 conjI [OF c3 c4]]])
qed

lemma launch_commit:
  fixes F :: "uint \<Rightarrow> uint \<Rightarrow> uint \<Rightarrow> 's store"
  assumes key: "\<And>b l c. fst (F b l c) = b * (d div 2) * Lo + l * (d div 2) + c"
    and val: "\<And>b l c. b < B \<Longrightarrow> l < Lo \<Longrightarrow> c < d div 2 \<Longrightarrow> \<exists>v. snd (F b l c) = Some v"
    and sz: "unat B * unat Lo * unat (d div 2) \<le> 2 ^ 32"
      "2 * (unat B * unat Lo * unat (d div 2)) \<le> length mem"
  shows "\<exists>mem'. commit mem (launch (tiles (d div 2) B Lo F) (grid_of d Lo B) blk) = Some mem' \<and>
           length mem' = length mem \<and>
           (\<forall>b l c. b < B \<longrightarrow> l < Lo \<longrightarrow> c < d div 2 \<longrightarrow>
              (\<exists>v. snd (F b l c) = Some v \<and>
                 mem' ! (2 * ((unat b * unat Lo + unat l) * unat (d div 2) + unat c)) = Some (fst v) \<and>
                 mem' ! (2 * ((unat b * unat Lo + unat l) * unat (d div 2) + unat c) + 1) = Some (snd v))) \<and>
           (\<forall>j<length mem. 2 * (unat B * unat Lo * unat (d div 2)) \<le> j \<longrightarrow> mem' ! j = mem ! j)"
proof -
  let ?D = "d div 2"
  let ?ws = "launch (tiles ?D B Lo F) (grid_of d Lo B) blk"
  let ?flat = "\<lambda>b l c. (unat b * unat Lo + unat l) * unat ?D + unat c"
  have flat: "unat (fst (F b l c)) = ?flat b l c \<and> ?flat b l c < unat B * unat Lo * unat ?D"
    if "b < B" "l < Lo" "c < ?D" for b l c
  proof -
    have lt: "?flat b l c < unat B * unat Lo * unat ?D"
      using that by (intro row_major_bound) (simp_all add: word_less_nat_alt)
    then have lt32: "?flat b l c < 2 ^ 32" using sz(1) by linarith
    have e: "fst (F b l c) = of_nat (?flat b l c)" by (simp add: key algebra_simps)
    have "unat (fst (F b l c)) = unat (of_nat (?flat b l c) :: uint)" by (simp only: e)
    also have "\<dots> = ?flat b l c" using lt32 by (rule unat_of_nat32)
    finally show ?thesis using lt by simp
  qed
  have mem_ws: "w \<in> set ?ws \<longleftrightarrow> (\<exists>b l c. b < B \<and> l < Lo \<and> c < ?D \<and> w = F b l c)" for w
    by (rule launch_tiles_mem)
  have "\<exists>mem'. commit mem ?ws = Some mem' \<and> length mem' = length mem \<and>
           (\<forall>i v. (i, Some v) \<in> set ?ws \<longrightarrow>
              mem' ! (2 * unat i) = Some (fst v) \<and> mem' ! (2 * unat i + 1) = Some (snd v)) \<and>
           (\<forall>j<length mem. (\<forall>w\<in>set ?ws. unat (fst w) \<noteq> j div 2) \<longrightarrow> mem' ! j = mem ! j)"
  proof (rule commit_consistent)
    fix w assume "w \<in> set ?ws"
    then obtain b l c where c: "b < B" "l < Lo" "c < ?D" and w: "w = F b l c"
      unfolding mem_ws by blast
    from val [OF c] obtain v where "snd w = Some v" using w by blast
    moreover have "2 * unat (fst w) + 1 < length mem" using flat [OF c] w sz(2) by simp
    ultimately show "\<exists>v. snd w = Some v \<and> 2 * unat (fst w) + 1 < length mem" by blast
  next
    fix w1 w2 assume "w1 \<in> set ?ws" "w2 \<in> set ?ws" and e: "fst w1 = fst w2"
    then obtain b l c b' l' c' where c: "b < B" "l < Lo" "c < ?D" and w1: "w1 = F b l c"
      and c': "b' < B" "l' < Lo" "c' < ?D" and w2: "w2 = F b' l' c'"
      unfolding mem_ws by blast
    have "?flat b l c = ?flat b' l' c'" using flat [OF c] flat [OF c'] e w1 w2 by simp
    then have "unat b = unat b' \<and> unat l = unat l' \<and> unat c = unat c'"
      using c c' by (intro row_major_inj) (simp_all add: word_less_nat_alt)
    then have "b = b'" "l = l'" "c = c'" by (simp_all add: word_unat_eq_iff)
    then show "snd w1 = snd w2" using w1 w2 by simp
  qed
  then obtain mem' where c1: "commit mem ?ws = Some mem'" and c2: "length mem' = length mem"
    and val': "\<And>i v. (i, Some v) \<in> set ?ws \<Longrightarrow>
              mem' ! (2 * unat i) = Some (fst v) \<and> mem' ! (2 * unat i + 1) = Some (snd v)"
    and frame: "\<And>j. j < length mem \<Longrightarrow> (\<forall>w\<in>set ?ws. unat (fst w) \<noteq> j div 2) \<Longrightarrow> mem' ! j = mem ! j"
    by blast
  have c3: "\<forall>b l c. b < B \<longrightarrow> l < Lo \<longrightarrow> c < ?D \<longrightarrow>
              (\<exists>v. snd (F b l c) = Some v \<and>
                 mem' ! (2 * ?flat b l c) = Some (fst v) \<and>
                 mem' ! (2 * ?flat b l c + 1) = Some (snd v))"
  proof (intro allI impI)
    fix b l c assume c: "b < B" "l < Lo" "c < ?D"
    from val [OF c] obtain v where v: "snd (F b l c) = Some v" by blast
    have "F b l c \<in> set ?ws" unfolding mem_ws using c by blast
    then have "(fst (F b l c), Some v) \<in> set ?ws" using v by (metis prod.collapse)
    from val' [OF this] flat [OF c] v
    show "\<exists>v. snd (F b l c) = Some v \<and>
                 mem' ! (2 * ?flat b l c) = Some (fst v) \<and>
                 mem' ! (2 * ?flat b l c + 1) = Some (snd v)" by simp
  qed
  have c4: "\<forall>j<length mem. 2 * (unat B * unat Lo * unat ?D) \<le> j \<longrightarrow> mem' ! j = mem ! j"
  proof (intro allI impI)
    fix j assume j: "j < length mem" "2 * (unat B * unat Lo * unat ?D) \<le> j"
    have "\<forall>w\<in>set ?ws. unat (fst w) \<noteq> j div 2"
    proof
      fix w assume "w \<in> set ?ws"
      then obtain b l c where c: "b < B" "l < Lo" "c < ?D" and w: "w = F b l c"
        unfolding mem_ws by blast
      have "unat (fst w) < unat B * unat Lo * unat ?D" using flat [OF c] w by simp
      moreover have "unat B * unat Lo * unat ?D \<le> j div 2" using j(2) by simp
      ultimately show "unat (fst w) \<noteq> j div 2" by simp
    qed
    with j(1) show "mem' ! j = mem ! j" by (rule frame)
  qed
  show ?thesis
    by (rule exI [of _ mem']) (rule conjI [OF c1 conjI [OF c2 conjI [OF c3 c4]]])
qed

subsection \<open>The whole call\<close>

lemma conv1d_setup_eq:
  assumes "3 \<le> length (sizes u)" "1 \<le> length (sizes weight)"
  shows "conv1d_setup u weight bias padding =
     Some \<lparr>s_gridDims = grid_of (of_nat (sizes u ! 2))
                (of_nat (sizes u ! 1) + 2 * padding - of_nat (sizes weight ! 0) + 1)
                (of_nat (sizes u ! 0)),
           s_blockDims = blk, s_args = kargs_of u weight bias padding,
           s_k = of_nat (sizes weight ! 0),
           s_out = empty_tensor [unat (of_nat (sizes u ! 0) :: uint),
              unat (of_nat (sizes u ! 1) + 2 * padding - of_nat (sizes weight ! 0) + 1 :: uint),
              unat (of_nat (sizes u ! 2) :: uint)] (dtype u)\<rparr>"
proof -
  have "sizes u \<noteq> []" "sizes weight \<noteq> []" using assms by auto
  moreover have "1 < length (sizes u)" "2 < length (sizes u)" using assms by linarith+
  ultimately show ?thesis
    by (simp add: conv1d_setup_def size_at_def Let_def grid_of_def blk_def kargs_of_def)
qed

lemma dispatch_run:
  assumes "packed_of dt = Some T" "k_K a = k"
  shows "\<exists>kern. dispatch k dt = Some (kern, T) \<and> run_kernel kern T dev a = conv1d_kernel T dev a"
proof (cases "k = 3")
  case True
  then have "k_K a = 3" using assms(2) by simp
  then have "conv1d_kernel_k_3 T dev a = conv1d_kernel T dev a" by (rule kernel_k_3_generic)
  then show ?thesis using assms(1) True by (cases dt) (simp_all add: dispatch_def)
next
  case False
  then show ?thesis using assms(1) by (cases dt) (simp_all add: dispatch_def)
qed

lemma dispatch_packed_of: "dispatch k dt = None \<longleftrightarrow> packed_of dt = None"
  by (cases dt) (simp_all add: dispatch_def)

text \<open>
  A call on tensors of matching shapes whose output has at most \<open>2\<^sup>3\<^sup>2\<close> packed elements
  returns: no read or store leaves its array, and the output holds, at every coordinate, the
  value that the generic tap loop computes there.
\<close>

lemma run_general:
  fixes u weight bias :: "'s tensor" and p :: uint
  assumes su: "sizes u = [B, L, D]" and sw: "sizes weight ! 0 = K" "1 \<le> length (sizes weight)"
    and fit: "B < 2 ^ 32" "L < 2 ^ 32" "D < 2 ^ 32" "K < 2 ^ 32"
    and len: "length (storage u) = B * L * D" "K * D \<le> length (storage weight)"
      "D \<le> length (storage bias)"
    and ev: "even D" and T: "packed_of (dtype u) = Some T"
    and ne: "0 < K \<longrightarrow> 0 < L + unat p"
    and Lo: "Lo = unat (of_nat L + 2 * p - of_nat K + 1 :: uint)"
    and out_fit: "B * Lo * (D div 2) \<le> 2 ^ 32"
  shows "\<exists>r. conv1d_cuda_blh dev u weight bias p = Inr r \<and> sizes (out r) = [B, Lo, D] \<and>
           dtype (out r) = dtype u \<and> length (storage (out r)) = B * Lo * D \<and> stdout r = [] \<and>
           (\<forall>b l c. b < B \<longrightarrow> l < Lo \<longrightarrow> c < D div 2 \<longrightarrow>
              (\<exists>v. snd (gen_store T dev (kargs_of u weight bias p) (of_nat b) (of_nat l) (of_nat c))
                     = Some v \<and>
                   storage (out r) ! ((b * Lo + l) * D + 2 * c) = Some (fst v) \<and>
                   storage (out r) ! ((b * Lo + l) * D + 2 * c + 1) = Some (snd v)))"
proof -
  define a where "a = kargs_of u weight bias p"
  define d :: uint where "d = of_nat D"
  define Bw :: uint where "Bw = of_nat B"
  define lo :: uint where "lo = of_nat L + 2 * p - of_nat K + 1"
  define mem0 :: "'s option list" where "mem0 = replicate (B * Lo * D) None"
  have uB: "unat Bw = B" and ud: "unat d = D" and uL: "unat (of_nat L :: uint) = L"
    and uK: "unat (of_nat K :: uint) = K"
    using fit by (simp_all add: Bw_def d_def unat_of_nat32)
  have ud2: "unat (d div 2) = D div 2" by (simp add: unat_div ud)
  have ulo: "unat lo = Lo" by (simp add: Lo lo_def)
  from ev obtain D' where D': "D = 2 * D'" by (elim evenE)
  have D2: "2 * (D div 2) = D" by (simp add: D')
  have a_simps: "k_u a = storage u" "k_weights a = storage weight" "k_bias a = storage bias"
    "k_padding a = p" "k_B a = Bw" "k_L a = of_nat L" "k_L_out a = lo"
    "k_L_eff a = of_nat L + 2 * p" "k_D a = d div 2" "k_K a = of_nat K"
    by (simp_all add: a_def kargs_of_def su sw Bw_def d_def lo_def)
  have plan: "conv1d_setup u weight bias p =
      Some \<lparr>s_gridDims = grid_of d lo Bw, s_blockDims = blk, s_args = a, s_k = of_nat K,
            s_out = empty_tensor [B, Lo, D] (dtype u)\<rparr>"
    using conv1d_setup_eq [of u weight bias p] sw(2) uB ud ulo
    by (simp add: su sw a_def Bw_def d_def lo_def)
  obtain kern where kern: "dispatch (of_nat K) (dtype u) = Some (kern, T)"
    and run: "run_kernel kern T dev a = conv1d_kernel T dev a"
    using dispatch_run [OF T, of a "of_nat K" dev] a_simps by blast
  have kt: "conv1d_kernel T dev a = tiles (d div 2) Bw lo (gen_store T dev a)"
    by (simp add: conv1d_kernel_tiles a_simps lo_def)
  have "\<exists>mem'. commit mem0 (launch (tiles (d div 2) Bw lo (gen_store T dev a)) (grid_of d lo Bw) blk)
            = Some mem' \<and> length mem' = length mem0 \<and>
           (\<forall>b l c. b < Bw \<longrightarrow> l < lo \<longrightarrow> c < d div 2 \<longrightarrow>
              (\<exists>v. snd (gen_store T dev a b l c) = Some v \<and>
                 mem' ! (2 * ((unat b * unat lo + unat l) * unat (d div 2) + unat c)) = Some (fst v) \<and>
                 mem' ! (2 * ((unat b * unat lo + unat l) * unat (d div 2) + unat c) + 1) = Some (snd v))) \<and>
           (\<forall>j<length mem0. 2 * (unat Bw * unat lo * unat (d div 2)) \<le> j \<longrightarrow> mem' ! j = mem0 ! j)"
  proof (rule launch_commit)
    fix b l c
    show "fst (gen_store T dev a b l c) = b * (d div 2) * lo + l * (d div 2) + c"
      by (simp add: gen_store_def a_simps)
  next
    fix b l c assume c: "b < Bw" "l < lo" "c < d div 2"
    show "\<exists>v. snd (gen_store T dev a b l c) = Some v"
    proof (rule gen_store_no_fault)
      show "c < k_D a" "b < k_B a" using c by (simp_all add: a_simps)
      show "0 < unat (k_K a) \<longrightarrow> 0 < unat (k_L a) + unat (k_padding a)"
        using ne by (simp add: a_simps uK uL)
      show "k_L_eff a = k_L a + 2 * k_padding a" by (simp add: a_simps)
      have h1: "2 * (B * L * (D div 2)) = B * L * D" by (simp add: D')
      show "2 * (unat (k_B a) * unat (k_L a) * unat (k_D a)) \<le> length (k_u a)"
        unfolding a_simps uB uL ud2 len by (simp only: h1 order_refl)
      have h2: "2 * (K * (D div 2)) = K * D" by (simp add: D')
      show "2 * (unat (k_K a) * unat (k_D a)) \<le> length (k_weights a)"
        unfolding a_simps uK ud2 using len(2) by (simp only: h2)
      show "2 * unat (k_D a) \<le> length (k_bias a)"
        unfolding a_simps ud2 using len(3) by (simp only: D2)
    qed
  next
    show "unat Bw * unat lo * unat (d div 2) \<le> 2 ^ 32" using out_fit by (simp add: uB ulo ud2)
    have h3: "2 * (B * Lo * (D div 2)) = B * Lo * D" by (simp add: D')
    show "2 * (unat Bw * unat lo * unat (d div 2)) \<le> length mem0"
      unfolding uB ulo ud2 mem0_def length_replicate by (simp only: h3 order_refl)
  qed
  then obtain mem' where c1: "commit mem0 (launch (conv1d_kernel T dev a) (grid_of d lo Bw) blk) = Some mem'"
    and c2: "length mem' = length mem0"
    and c3: "\<And>b l c. b < Bw \<Longrightarrow> l < lo \<Longrightarrow> c < d div 2 \<Longrightarrow>
              (\<exists>v. snd (gen_store T dev a b l c) = Some v \<and>
                 mem' ! (2 * ((unat b * unat lo + unat l) * unat (d div 2) + unat c)) = Some (fst v) \<and>
                 mem' ! (2 * ((unat b * unat lo + unat l) * unat (d div 2) + unat c) + 1) = Some (snd v))"
    unfolding kt by blast
  define r where "r = \<lparr>out = (empty_tensor [B, Lo, D] (dtype u))\<lparr>storage := mem'\<rparr>, stdout = [],
      launched = Some (kern, T)\<rparr>"
  have st0: "storage (empty_tensor [B, Lo, D] (dtype u) :: 's option tensor) = mem0"
    by (simp add: empty_tensor_def mem0_def)
  have res: "conv1d_cuda_blh dev u weight bias p = Inr r"
    by (simp add: conv1d_cuda_blh_def plan kern run st0 c1 r_def)
  have elems: "\<forall>b l c. b < B \<longrightarrow> l < Lo \<longrightarrow> c < D div 2 \<longrightarrow>
              (\<exists>v. snd (gen_store T dev a (of_nat b) (of_nat l) (of_nat c)) = Some v \<and>
                   storage (out r) ! ((b * Lo + l) * D + 2 * c) = Some (fst v) \<and>
                   storage (out r) ! ((b * Lo + l) * D + 2 * c + 1) = Some (snd v))"
  proof (intro allI impI)
    fix b l c assume c: "b < B" "l < Lo" "c < D div 2"
    have ub: "unat (of_nat b :: uint) = b" using c(1) fit(1) by (simp add: unat_of_nat32)
    have ul: "unat (of_nat l :: uint) = l"
      using c(2) unat_lt32 [of lo] ulo by (simp add: unat_of_nat32)
    have uc: "unat (of_nat c :: uint) = c" using c(3) fit(3) by (simp add: unat_of_nat32)
    have w: "(of_nat b :: uint) < Bw" "(of_nat l :: uint) < lo" "(of_nat c :: uint) < d div 2"
      using c by (simp_all add: word_less_nat_alt ub ul uc uB ulo ud2)
    have h4: "2 * ((b * Lo + l) * (D div 2) + c) = (b * Lo + l) * D + 2 * c"
      by (simp add: D')
    show "\<exists>v. snd (gen_store T dev a (of_nat b) (of_nat l) (of_nat c)) = Some v \<and>
                   storage (out r) ! ((b * Lo + l) * D + 2 * c) = Some (fst v) \<and>
                   storage (out r) ! ((b * Lo + l) * D + 2 * c + 1) = Some (snd v)"
      using c3 [OF w] unfolding ub ul uc ulo ud2 h4 by (simp add: r_def)
  qed
  have "sizes (out r) = [B, Lo, D]" "dtype (out r) = dtype u" "stdout r = []"
    "length (storage (out r)) = B * Lo * D"
    by (simp_all add: r_def empty_tensor_def c2 mem0_def)
  with res elems show ?thesis unfolding a_def by blast
qed

subsection \<open>The shape of the output\<close>

lemma unat_minus_1_32: "unat (- 1 :: uint) = 4294967295"
  by (simp add: unsigned_minus_1_eq_mask mask_eq_exp_minus_1)

lemma result_sizes:
  assumes "conv1d_cuda_blh dev u weight bias p = Inr r"
  shows "sizes (out r) = [unat (of_nat (sizes u ! 0) :: uint),
           unat (of_nat (sizes u ! 1) + 2 * p - of_nat (sizes weight ! 0) + 1 :: uint),
           unat (of_nat (sizes u ! 2) :: uint)]"
  using assms
  by (auto simp: conv1d_cuda_blh_def conv1d_setup_def size_at_def Let_def empty_tensor_def
      split: option.splits if_splits prod.splits)

lemma uint_l_out:
  "uint (of_nat L + 2 * p - of_nat K + 1 :: uint) = (int L + 2 * uint p - int K + 1) mod 2 ^ 32"
proof -
  have "(of_nat L + 2 * p - of_nat K + 1 :: uint) = word_of_int (int L + 2 * uint p - int K + 1)"
    by simp
  then show ?thesis by (simp only: uint_word_of_int) simp
qed

text \<open>
  C6 (as amended). The dispatcher computes the output length in 32-bit unsigned arithmetic:
  the sequence length of the returned tensor is \<open>(L + 2 p - K + 1) mod 2\<^sup>3\<^sup>2\<close>. It is
  \<open>L + 2 p - K + 1\<close> whenever that number lies between 0 and \<open>2\<^sup>3\<^sup>2 - 1\<close>, that is for
  \<open>K \<le> L + 2 p + 1\<close> within the range; for larger \<open>K\<close> it wraps around, as the
  counterexample shows at \<open>L = 1\<close>, \<open>p = 0\<close>, \<open>K = 3\<close>, where the claimed length is \<open>-1\<close>
  and the returned tensor has length 4294967295.
\<close>

theorem l_out_modular:
  assumes "conv1d_cuda_blh dev u weight bias p = Inr r"
  shows "int (sizes (out r) ! 1) =
           (int (sizes u ! 1) + 2 * uint p - int (sizes weight ! 0) + 1) mod 2 ^ 32 \<and>
         (int (sizes weight ! 0) \<le> int (sizes u ! 1) + 2 * uint p + 1 \<and>
          int (sizes u ! 1) + 2 * uint p - int (sizes weight ! 0) + 1 < 2 ^ 32 \<longrightarrow>
            int (sizes (out r) ! 1) = int (sizes u ! 1) + 2 * uint p - int (sizes weight ! 0) + 1)"
proof -
  have "int (sizes (out r) ! 1) =
      uint (of_nat (sizes u ! 1) + 2 * p - of_nat (sizes weight ! 0) + 1 :: uint)"
    by (simp add: result_sizes [OF assms])
  then have e: "int (sizes (out r) ! 1) =
           (int (sizes u ! 1) + 2 * uint p - int (sizes weight ! 0) + 1) mod 2 ^ 32"
    by (simp only: uint_l_out)
  show ?thesis unfolding e by simp
qed

theorem l_out_counterexample:
  "\<exists>r. conv1d_cuda_blh exact_dev c6_u c6_weight c6_bias 0 = Inr r \<and>
       sizes (out r) ! 1 = 4294967295 \<and>
       int (sizes (out r) ! 1) \<noteq> int (sizes c6_u ! 1) + 2 * uint (0 :: uint) - int (sizes c6_weight ! 0) + 1"
proof -
  have "\<exists>r. conv1d_cuda_blh exact_dev c6_u c6_weight c6_bias 0 = Inr r \<and>
           sizes (out r) = [1, 4294967295, 2] \<and>
           dtype (out r) = dtype c6_u \<and> length (storage (out r)) = 1 * 4294967295 * 2 \<and> stdout r = [] \<and>
           (\<forall>b l c. b < 1 \<longrightarrow> l < 4294967295 \<longrightarrow> c < 2 div 2 \<longrightarrow>
              (\<exists>v. snd (gen_store Half2 exact_dev (kargs_of c6_u c6_weight c6_bias 0) (of_nat b) (of_nat l) (of_nat c))
                     = Some v \<and>
                   storage (out r) ! ((b * 4294967295 + l) * 2 + 2 * c) = Some (fst v) \<and>
                   storage (out r) ! ((b * 4294967295 + l) * 2 + 2 * c + 1) = Some (snd v)))"
    by (rule run_general [where K = 3 and L = 1]) (simp_all add: c6_u_def c6_weight_def c6_bias_def unat_minus_1_32)
  then obtain r where "conv1d_cuda_blh exact_dev c6_u c6_weight c6_bias 0 = Inr r"
    "sizes (out r) = [1, 4294967295, 2]" by blast
  then show ?thesis by (intro exI [of _ r]) (simp add: c6_u_def c6_weight_def)
qed

theorem l_out_modular_witness:
  "int (sizes \<lparr>sizes = [1, 5, 2], dtype = kBFloat16,
                storage = map Some [3, 3, 6, 6, 9, 9, 12, 12, 9, 9 :: int]\<rparr> ! 1) =
     int (sizes (ex_u kBFloat16) ! 1) + 2 * uint (1 :: uint) - int (sizes (ex_weight kBFloat16) ! 0) + 1"
  using l_out_modular [OF ex_run_bfloat16] by (simp add: ex_u_def ex_weight_def)

text \<open>
  C8. When the element type of the input is none of float16, bfloat16 and float32, the call
  prints the line \<^verbatim>\<open>Unsupported datatype\<close>, launches no kernel, performs no store, and returns
  the output buffer as it was allocated, every element unwritten.
\<close>

theorem unsupported_dtype:
  assumes "dtype u \<notin> {kFloat16, kBFloat16, kFloat32}"
    and "3 \<le> length (sizes u)" and "1 \<le> length (sizes weight)"
  shows "\<exists>r. conv1d_cuda_blh dev u weight bias p = Inr r \<and>
           stdout r = [''Unsupported datatype'' @ [CHR 0x0A]] \<and> launched r = None \<and>
           set (storage (out r)) \<subseteq> {None} \<and>
           conv1d_stores dev u weight bias p = []"
proof -
  have "packed_of (dtype u) = None" using assms(1) by (cases "dtype u") simp_all
  then have d: "dispatch (of_nat (sizes weight ! 0)) (dtype u) = None"
    by (simp add: dispatch_packed_of)
  show ?thesis
    by (auto simp: conv1d_cuda_blh_def conv1d_stores_def conv1d_setup_eq [OF assms(2,3)] d
        empty_tensor_def)
qed

theorem unsupported_dtype_witness:
  "kFloat64 \<notin> {kFloat16, kBFloat16, kFloat32} \<and>
   (\<exists>r. conv1d_cuda_blh exact_dev (ex_u kFloat64) (ex_weight kFloat64) (ex_bias kFloat64) 1 = Inr r \<and>
        stdout r = [''Unsupported datatype'' @ [CHR 0x0A]] \<and> launched r = None \<and>
        set (storage (out r)) \<subseteq> {None} \<and> length (storage (out r)) = 10 \<and>
        conv1d_stores exact_dev (ex_u kFloat64) (ex_weight kFloat64) (ex_bias kFloat64) 1 = [])"
proof -
  have "\<exists>r. conv1d_cuda_blh exact_dev (ex_u kFloat64) (ex_weight kFloat64) (ex_bias kFloat64) 1 = Inr r \<and>
        stdout r = [''Unsupported datatype'' @ [CHR 0x0A]] \<and> launched r = None \<and>
        set (storage (out r)) \<subseteq> {None} \<and>
        conv1d_stores exact_dev (ex_u kFloat64) (ex_weight kFloat64) (ex_bias kFloat64) 1 = []"
    by (rule unsupported_dtype) (simp_all add: ex_u_def ex_weight_def)
  then obtain r where r: "conv1d_cuda_blh exact_dev (ex_u kFloat64) (ex_weight kFloat64) (ex_bias kFloat64) 1 = Inr r"
    "stdout r = [''Unsupported datatype'' @ [CHR 0x0A]]" "launched r = None"
    "set (storage (out r)) \<subseteq> {None}"
    "conv1d_stores exact_dev (ex_u kFloat64) (ex_weight kFloat64) (ex_bias kFloat64) 1 = []"
    by blast
  have "sizes (out r) = [1, 5, 2]"
    using result_sizes [OF r(1)] by (simp add: ex_u_def ex_weight_def)
  moreover have "length (storage (out r)) = prod_list (sizes (out r))"
    using r(1)
    by (auto simp: conv1d_cuda_blh_def conv1d_setup_def size_at_def Let_def empty_tensor_def
        ex_u_def ex_weight_def dispatch_def split: option.splits)
  ultimately have "length (storage (out r)) = 10" by simp
  with r show ?thesis by auto
qed

subsection \<open>Reading the reference tensors by coordinates\<close>

lemma length_concat_blocks:
  assumes "\<And>i. i < n \<Longrightarrow> length (f i) = m"
  shows "length (concat (map f [0..<n])) = n * m"
  using assms by (induction n) simp_all

lemma nth_concat_blocks:
  assumes "\<And>i. i < n \<Longrightarrow> length (f i) = m" and "i < n" and "j < m"
  shows "concat (map f [0..<n]) ! (i * m + j) = f i ! j"
  using assms
proof (induction n)
  case 0
  then show ?case by simp
next
  case (Suc n)
  have len: "length (concat (map f [0..<n])) = n * m"
    using Suc.prems(1) by (intro length_concat_blocks) simp
  show ?case
  proof (cases "i < n")
    case True
    then have "Suc i * m \<le> n * m" by (intro mult_le_mono1) simp
    then have "i * m + j < n * m" using Suc.prems(3) by simp
    moreover have "concat (map f [0..<n]) ! (i * m + j) = f i ! j"
      using Suc.prems True by (intro Suc.IH) simp_all
    ultimately show ?thesis using len by (simp add: nth_append)
  next
    case False
    then have "i = n" using Suc.prems(2) by simp
    then show ?thesis using len by (simp add: nth_append)
  qed
qed

lemma at3_pad_seq:
  assumes su: "sizes u = [B, L, D]" and len: "length (storage u) = B * L * D"
    and c: "b < B" "j < L + 2 * p" "c < D"
  shows "at3 (pad_seq z p u) b j c = (if p \<le> j \<and> j < p + L then at3 u b (j - p) c else z)"
proof -
  let ?blk = "\<lambda>b. replicate (p * D) z @ take (L * D) (drop (b * (L * D)) (storage u))
                @ replicate (p * D) z"
  have blen: "length (?blk i) = (L + 2 * p) * D" if "i < B" for i
  proof -
    have "Suc i * (L * D) \<le> B * (L * D)" using that by (intro mult_le_mono1) simp
    then have "L * D \<le> length (storage u) - i * (L * D)" using len by (simp add: mult.assoc)
    then show ?thesis by (simp add: add_mult_distrib)
  qed
  have jc: "j * D + c < (L + 2 * p) * D"
    using row_major_bound [of 0 1 j "L + 2 * p" c D] c by simp
  have "at3 (pad_seq z p u) b j c = concat (map ?blk [0..<B]) ! (b * ((L + 2 * p) * D) + (j * D + c))"
    by (simp add: at3_def pad_seq_def su Let_def algebra_simps)
  also have "\<dots> = ?blk b ! (j * D + c)"
    using blen c(1) jc by (rule nth_concat_blocks)
  also have "\<dots> = (if p \<le> j \<and> j < p + L then at3 u b (j - p) c else z)"
  proof -
    let ?mid = "take (L * D) (drop (b * (L * D)) (storage u))"
    have "Suc b * (L * D) \<le> B * (L * D)" using c(1) by (intro mult_le_mono1) simp
    then have room: "b * (L * D) + L * D \<le> length (storage u)" using len by (simp add: mult.assoc)
    then have mlen: "length ?mid = L * D" by simp
    consider (before) "j < p" | (inside) q where "j = p + q" "q < L"
      | (after) q where "j = p + L + q" "q < p"
    proof -
      have "j < p \<or> (\<exists>q. j = p + q \<and> q < L) \<or> (\<exists>q. j = p + L + q \<and> q < p)"
        using c(2) by presburger
      then show thesis using before inside after by blast
    qed
    then show ?thesis
    proof cases
      case before
      then have "j * D + c < p * D" using row_major_bound [of 0 1 j p c D] c by simp
      then show ?thesis using before by (simp add: nth_append)
    next
      case inside
      have lt: "q * D + c < L * D" using row_major_bound [of 0 1 q L c D] c inside by simp
      have "j * D + c = length (replicate (p * D) z) + (q * D + c)"
        by (simp add: inside add_mult_distrib)
      then have "?blk b ! (j * D + c) = (?mid @ replicate (p * D) z) ! (q * D + c)"
        by (simp only: nth_append_length_plus)
      also have "\<dots> = ?mid ! (q * D + c)" using lt mlen by (simp only: nth_append if_True)
      also have "\<dots> = storage u ! (b * (L * D) + (q * D + c))"
        using lt room by simp
      also have "\<dots> = at3 u b q c" by (simp add: at3_def su algebra_simps)
      finally show ?thesis using inside by simp
    next
      case after
      have lt: "q * D + c < p * D" using row_major_bound [of 0 1 q p c D] c after by simp
      have "j * D + c = length (replicate (p * D) z) + (length ?mid + (q * D + c))"
        by (simp only: mlen length_replicate) (simp add: after add_mult_distrib)
      then have "?blk b ! (j * D + c) = (?mid @ replicate (p * D) z) ! (length ?mid + (q * D + c))"
        by (simp only: nth_append_length_plus)
      also have "\<dots> = replicate (p * D) z ! (q * D + c)" by (simp only: nth_append_length_plus)
      also have "\<dots> = z" using lt by simp
      finally show ?thesis using after by simp
    qed
  qed
  finally show ?thesis .
qed

subsection \<open>The tap loop against the reference\<close>

lemma taps_fold:
  assumes "\<And>k. k \<in> set ks \<Longrightarrow>
      get_u T dev (k_u a) (k_L_eff a) lt (k_padding a) b (of_nat k) d (k_L a) (k_D a) (k_K a) = Some (X k) \<and>
      ld2 (k_weights a) (of_nat k * k_D a + d) = Some (W k)"
  shows "taps T dev a b lt d ks acc = Some (fold (\<lambda>k acc. hfma2 T dev (X k) (W k) acc) ks acc)"
  using assms by (induction ks arbitrary: acc) simp_all

lemma fold_hfma2:
  "fold (\<lambda>k acc. hfma2 T dev (X k) (W k) acc) ks acc =
     (fold (\<lambda>k acc. fmadd (ops T dev) (fst (X k)) (fst (W k)) acc) ks (fst acc),
      fold (\<lambda>k acc. fmadd (ops T dev) (snd (X k)) (snd (W k)) acc) ks (snd acc))"
  by (induction ks arbitrary: acc) (simp_all add: hfma2_ops)

lemma sample_ref:
  fixes p :: uint
  assumes su: "sizes u = [B, L, 2 * D']" and len: "length (storage u) = B * L * (2 * D')"
    and fit: "B < 2 ^ 32" "D' < 2 ^ 32" "L + 2 * unat p < 2 ^ 32" "B * L * D' \<le> 2 ^ 32"
    and c: "b < B" "l + k < L + 2 * unat p" "c < D'"
  shows "get_u T dev (storage u) (of_nat L + 2 * p) (of_nat l) p (of_nat b) (of_nat k) (of_nat c)
           (of_nat L) (of_nat D') K =
         Some (at3 (pad_seq (fzero (ops T dev)) (unat p) u) b (l + k) (2 * c),
               at3 (pad_seq (fzero (ops T dev)) (unat p) u) b (l + k) (2 * c + 1))"
proof -
  let ?z = "fzero (ops T dev)"
  let ?s = "of_nat l + of_nat k :: uint"
  have pos: "0 < L + unat p" using c(2) by linarith
  have uL: "unat (of_nat L :: uint) = L" using fit(3) by (simp add: unat_of_nat32)
  have us: "unat ?s = l + k"
  proof -
    have "?s = of_nat (l + k)" by simp
    then show ?thesis using c(2) fit(3) by (simp only: unat_of_nat32)
  qed
  have e1: "(of_nat L + 2 * p - (p + 1) :: uint) = of_nat L + p - 1" by simp
  have e2: "unat (of_nat L + p - 1 :: uint) = (L + unat p - 1) mod 2 ^ 32"
    by (rule unat_upper [of "of_nat L" p, unfolded uL, OF pos])
  have e3: "(L + unat p - 1) mod 2 ^ 32 = L + unat p - 1" using fit(3) by simp
  have uU: "unat (of_nat L + 2 * p - (p + 1) :: uint) = L + unat p - 1"
    by (simp only: e1 e2 e3)
  have g1: "?s < p \<longleftrightarrow> l + k < unat p" by (simp only: word_less_nat_alt us)
  have g2: "?s > of_nat L + 2 * p - (p + 1) \<longleftrightarrow> L + unat p \<le> l + k"
    using pos by (simp only: word_less_nat_alt us uU) linarith
  define ins where "ins \<longleftrightarrow> unat p \<le> l + k \<and> l + k < unat p + L"
  have pad: "at3 (pad_seq ?z (unat p) u) b (l + k) c' =
      (if ins then at3 u b (l + k - unat p) c' else ?z)"
    if "c' < 2 * D'" for c'
    unfolding ins_def using su len c(1) c(2) that by (rule at3_pad_seq)
  have c2: "2 * c < 2 * D'" "2 * c + 1 < 2 * D'" using c(3) by simp_all
  show ?thesis
  proof (cases ins)
    case False
    then have gd: "?s < p \<or> ?s > of_nat L + 2 * p - (p + 1)"
      unfolding g1 g2 ins_def by linarith
    have pv: "at3 (pad_seq ?z (unat p) u) b (l + k) (2 * c) = ?z"
      "at3 (pad_seq ?z (unat p) u) b (l + k) (2 * c + 1) = ?z"
      unfolding pad [OF c2(1)] pad [OF c2(2)] using False by simp_all
    have "get_u T dev (storage u) (of_nat L + 2 * p) (of_nat l) p (of_nat b) (of_nat k) (of_nat c)
           (of_nat L) (of_nat D') K = Some (zero2 T dev)"
      using gd by (simp only: get_u_unfold if_True)
    then show ?thesis by (simp only: pv zero2_ops)
  next
    case True
    then have ng: "\<not> (?s < p \<or> ?s > of_nat L + 2 * p - (p + 1))"
      unfolding g1 g2 ins_def by linarith
    let ?j = "l + k - unat p"
    have j: "?j < L" using True unfolding ins_def by linarith
    have uj: "unat (?s - p) = ?j"
      using True unfolding ins_def by (simp add: unat_sub word_le_nat_alt us)
    have ub: "unat (of_nat b :: uint) = b" using c(1) fit(1) by (simp add: unat_of_nat32)
    have uc: "unat (of_nat c :: uint) = c" using c(3) fit(2) by (simp add: unat_of_nat32)
    have uD: "unat (of_nat D' :: uint) = D'" using fit(2) by (simp add: unat_of_nat32)
    have lt: "(b * L + ?j) * D' + c < B * L * D'" using c(1) j c(3) by (rule row_major_bound)
    have "(unat (of_nat b :: uint) * unat (of_nat L :: uint) + unat (?s - p)) * unat (of_nat D' :: uint)
          + unat (of_nat c :: uint) < 2 ^ 32"
      unfolding ub uL uj uD uc using lt fit(4) by linarith
    then have "unat (of_nat b * of_nat L * of_nat D' + (?s - p) * of_nat D' + of_nat c :: uint) =
        (unat (of_nat b :: uint) * unat (of_nat L :: uint) + unat (?s - p)) * unat (of_nat D' :: uint)
          + unat (of_nat c :: uint)"
      by (rule unat_flat_eq)
    then have ui: "unat (of_nat b * of_nat L * of_nat D' + (?s - p) * of_nat D' + of_nat c :: uint) =
        (b * L + ?j) * D' + c" by (simp only: ub uL uj uD uc)
    have inb: "2 * ((b * L + ?j) * D' + c) + 1 < length (storage u)"
      using lt len by (simp add: mult.assoc mult.left_commute)
    have a1: "at3 u b ?j (2 * c) = storage u ! (2 * ((b * L + ?j) * D' + c))"
      by (simp add: at3_def su algebra_simps)
    have a2: "at3 u b ?j (2 * c + 1) = storage u ! (2 * ((b * L + ?j) * D' + c) + 1)"
      by (simp add: at3_def su algebra_simps)
    let ?i = "of_nat b * of_nat L * of_nat D' + (?s - p) * of_nat D' + of_nat c :: uint"
    have "2 * unat ?i + 1 < length (storage u)" using inb by (simp only: ui)
    then have "ld2 (storage u) ?i = Some (storage u ! (2 * unat ?i), storage u ! (2 * unat ?i + 1))"
      by (rule ld2_Some)
    then have "ld2 (storage u) ?i = Some (at3 u b ?j (2 * c), at3 u b ?j (2 * c + 1))"
      by (simp only: ui a1 a2)
    then have "get_u T dev (storage u) (of_nat L + 2 * p) (of_nat l) p (of_nat b) (of_nat k) (of_nat c)
           (of_nat L) (of_nat D') K = Some (at3 u b ?j (2 * c), at3 u b ?j (2 * c + 1))"
      using ng by (simp only: get_u_unfold if_False)
    moreover have "at3 (pad_seq ?z (unat p) u) b (l + k) (2 * c) = at3 u b ?j (2 * c)"
      "at3 (pad_seq ?z (unat p) u) b (l + k) (2 * c + 1) = at3 u b ?j (2 * c + 1)"
      unfolding pad [OF c2(1)] pad [OF c2(2)] using True by simp_all
    ultimately show ?thesis by (simp only:)
  qed
qed

lemma weight_ref:
  assumes sw: "sizes weight = [K, 2 * D']" and len: "length (storage weight) = K * (2 * D')"
    and fit: "D' < 2 ^ 32" "K * D' \<le> 2 ^ 32" and c: "k < K" "c < D'"
  shows "ld2 (storage weight) (of_nat k * of_nat D' + of_nat c) =
           Some (at2 weight k (2 * c), at2 weight k (2 * c + 1))"
proof -
  let ?i = "of_nat k * of_nat D' + of_nat c :: uint"
  have lt: "k * D' + c < K * D'" using row_major_bound [of 0 1 k K c D'] c by simp
  have "?i = of_nat (k * D' + c)" by simp
  moreover have "k * D' + c < 2 ^ 32" using lt fit(2) by linarith
  ultimately have ui: "unat ?i = k * D' + c" by (simp only: unat_of_nat32)
  have "2 * (k * D' + c) + 1 < length (storage weight)"
    using lt len by (simp add: mult.assoc mult.left_commute)
  then have "2 * unat ?i + 1 < length (storage weight)" by (simp only: ui)
  then have "ld2 (storage weight) ?i =
      Some (storage weight ! (2 * unat ?i), storage weight ! (2 * unat ?i + 1))"
    by (rule ld2_Some)
  moreover have "at2 weight k (2 * c) = storage weight ! (2 * (k * D' + c))"
    by (simp add: at2_def sw algebra_simps)
  moreover have "at2 weight k (2 * c + 1) = storage weight ! (2 * (k * D' + c) + 1)"
    by (simp add: at2_def sw algebra_simps)
  ultimately show ?thesis by (simp only: ui)
qed

lemma gen_store_ref:
  fixes p :: uint
  assumes su: "sizes u = [B, L, 2 * D']" and sw: "sizes weight = [K, 2 * D']"
    and len: "length (storage u) = B * L * (2 * D')" "length (storage weight) = K * (2 * D')"
      "length (storage bias) = 2 * D'"
    and fit: "B < 2 ^ 32" "D' < 2 ^ 31" "L + 2 * unat p < 2 ^ 32" "B * L * D' \<le> 2 ^ 32"
      "K * D' \<le> 2 ^ 32"
    and c: "b < B" "l + K \<le> L + 2 * unat p" "c < D'"
  shows "snd (gen_store T dev (kargs_of u weight bias p) (of_nat b) (of_nat l) (of_nat c)) =
     Some (conv_ref_elem (ops T dev) (pad_seq (fzero (ops T dev)) (unat p) u) weight bias b l (2 * c),
           conv_ref_elem (ops T dev) (pad_seq (fzero (ops T dev)) (unat p) u) weight bias b l (2 * c + 1))"
proof -
  let ?a = "kargs_of u weight bias p"
  let ?xp = "pad_seq (fzero (ops T dev)) (unat p) u"
  let ?X = "\<lambda>k. (at3 ?xp b (l + k) (2 * c), at3 ?xp b (l + k) (2 * c + 1))"
  let ?W = "\<lambda>k. (at2 weight k (2 * c), at2 weight k (2 * c + 1))"
  have D32: "D' < 2 ^ 32" "2 * D' < 2 ^ 32" using fit(2) by simp_all
  have K32: "K < 2 ^ 32" using c(2) fit(3) by linarith
  have uK: "unat (of_nat K :: uint) = K" using K32 by (simp add: unat_of_nat32)
  have kD: "(of_nat (2 * D') :: uint) div 2 = of_nat D'"
  proof -
    have u2: "unat (of_nat (2 * D') :: uint) = 2 * D'" using D32(2) by (rule unat_of_nat32)
    have "unat ((of_nat (2 * D') :: uint) div 2) = unat (of_nat (2 * D') :: uint) div unat (2 :: uint)"
      by (rule unat_div)
    then have "unat ((of_nat (2 * D') :: uint) div 2) = D'" by (simp only: u2) simp
    then show ?thesis using D32(1) by (metis unat_of_nat32 word_unat_eq_iff)
  qed
  have a_simps: "k_u ?a = storage u" "k_weights ?a = storage weight" "k_bias ?a = storage bias"
    "k_padding ?a = p" "k_L ?a = of_nat L" "k_L_eff ?a = of_nat L + 2 * p" "k_D ?a = of_nat D'"
    "k_K ?a = of_nat K"
    using kD by (simp_all add: kargs_of_def su sw)
  have uc: "unat (of_nat c :: uint) = c" using c(3) D32(1) by (simp add: unat_of_nat32)
  have "2 * unat (of_nat c :: uint) + 1 < length (storage bias)" using c(3) len(3) by (simp only: uc)
  then have bias: "ld2 (storage bias) (of_nat c) = Some (storage bias ! (2 * c), storage bias ! (2 * c + 1))"
    using ld2_Some [of "of_nat c" "storage bias"] by (simp only: uc)
  have step: "get_u T dev (k_u ?a) (k_L_eff ?a) (of_nat l) (k_padding ?a) (of_nat b) (of_nat k) (of_nat c)
         (k_L ?a) (k_D ?a) (k_K ?a) = Some (?X k) \<and>
       ld2 (k_weights ?a) (of_nat k * k_D ?a + of_nat c) = Some (?W k)"
    if "k \<in> set [0..<K]" for k
  proof -
    have k: "k < K" using that by simp
    then have "l + k < L + 2 * unat p" using c(2) by linarith
    then have "get_u T dev (storage u) (of_nat L + 2 * p) (of_nat l) p (of_nat b) (of_nat k) (of_nat c)
           (of_nat L) (of_nat D') (of_nat K) = Some (?X k)"
      using su len(1) fit(1) D32(1) fit(3,4) c(1) c(3) by (intro sample_ref) simp_all
    moreover have "ld2 (storage weight) (of_nat k * of_nat D' + of_nat c) = Some (?W k)"
      using sw len(2) D32(1) fit(5) k c(3) by (rule weight_ref)
    ultimately show ?thesis by (simp only: a_simps)
  qed
  have "taps T dev ?a (of_nat b) (of_nat l) (of_nat c) [0..<K] acc =
      Some (fold (\<lambda>k acc. hfma2 T dev (?X k) (?W k) acc) [0..<K] acc)" for acc
    using step by (rule taps_fold)
  then have "snd (gen_store T dev ?a (of_nat b) (of_nat l) (of_nat c)) =
      Some (fold (\<lambda>k acc. hfma2 T dev (?X k) (?W k) acc) [0..<K]
              (storage bias ! (2 * c), storage bias ! (2 * c + 1)))"
    by (simp add: gen_store_def a_simps(3,8) uK bias)
  then show ?thesis
    by (simp only: fold_hfma2 fst_conv snd_conv conv_ref_elem_def sw nth_Cons_0)
qed

lemma storage_conv_ref:
  assumes "sizes x = [B, Lp, D]" "sizes weight ! 0 = K" "Lo = Lp + 1 - K"
    and "b < B" "l < Lo" "c < D"
  shows "storage (conv_ref A x weight bias) ! ((b * Lo + l) * D + c) =
           Some (conv_ref_elem A x weight bias b l c)"
    and "length (storage (conv_ref A x weight bias)) = B * Lo * D"
    and "sizes (conv_ref A x weight bias) = [B, Lo, D]"
    and "dtype (conv_ref A x weight bias) = dtype x"
proof -
  let ?f = "\<lambda>b l d. Some (conv_ref_elem A x weight bias b l d)"
  let ?row = "\<lambda>b l. map (?f b l) [0..<D]"
  let ?bat = "\<lambda>b. concat (map (?row b) [0..<Lo])"
  have st: "storage (conv_ref A x weight bias) = concat (map ?bat [0..<B])"
    by (simp add: conv_ref_def Let_def assms(1,2,3))
  have blen: "length (?bat i) = Lo * D" for i
    by (intro length_concat_blocks) simp
  have lc: "l * D + c < Lo * D" using row_major_bound [of 0 1 l Lo c D] assms(5,6) by simp
  have "storage (conv_ref A x weight bias) ! (b * (Lo * D) + (l * D + c)) = ?bat b ! (l * D + c)"
    unfolding st using blen assms(4) lc by (intro nth_concat_blocks)
  also have "\<dots> = ?row b l ! c"
    using assms(5,6) by (intro nth_concat_blocks) simp_all
  also have "\<dots> = ?f b l c" using assms(6) by simp
  finally show "storage (conv_ref A x weight bias) ! ((b * Lo + l) * D + c) =
           Some (conv_ref_elem A x weight bias b l c)"
    by (simp add: algebra_simps)
  show "length (storage (conv_ref A x weight bias)) = B * Lo * D"
    unfolding st using blen by (simp add: length_concat_blocks [where m = "Lo * D"])
  show "sizes (conv_ref A x weight bias) = [B, Lo, D]" "dtype (conv_ref A x weight bias) = dtype x"
    by (simp_all add: conv_ref_def Let_def assms(1,2,3))
qed

lemma flat_decode:
  fixes j :: nat
  assumes "j < B * Lo * (2 * D')"
  shows "\<exists>b l c r. b < B \<and> l < Lo \<and> c < D' \<and> r < 2 \<and> j = (b * Lo + l) * (2 * D') + 2 * c + r"
proof -
  have "B * Lo * (2 * D') \<noteq> 0" using assms by linarith
  then have pos: "0 < Lo" "0 < D'" "0 < B" by simp_all
  define q where "q = j div 2"
  define r where "r = j mod 2"
  define c where "c = q mod D'"
  define n where "n = q div D'"
  define l where "l = n mod Lo"
  define b where "b = n div Lo"
  have j: "j = 2 * q + r" by (simp add: q_def r_def)
  have q: "q = n * D' + c" by (simp add: n_def c_def)
  have n: "n = b * Lo + l" by (simp add: b_def l_def)
  have "q < B * Lo * D'" using assms unfolding q_def by (simp add: mult.assoc mult.left_commute less_mult_imp_div_less)
  then have "n < B * Lo" unfolding n_def by (simp add: less_mult_imp_div_less)
  then have "b < B" unfolding b_def by (simp add: less_mult_imp_div_less)
  moreover have "l < Lo" "c < D'" "r < 2" using pos by (simp_all add: l_def c_def r_def)
  moreover have "j = (b * Lo + l) * (2 * D') + 2 * c + r"
    unfolding j q n by (simp add: algebra_simps)
  ultimately show ?thesis by blast
qed

text \<open>
  Functional correctness of the call: on well-formed tensors whose sizes keep the 32-bit
  arithmetic from wrapping, with \<open>K \<le> L + 2 p\<close> and a supported element type, the call
  returns, and its output is the reference convolution of the explicitly padded input.
\<close>

lemma list3: "length xs = 3 \<Longrightarrow> xs = [xs ! 0, xs ! 1, xs ! 2]"
  by (cases xs; cases "tl xs"; cases "tl (tl xs)") auto

lemma list2: "length xs = 2 \<Longrightarrow> xs = [xs ! 0, xs ! 1]"
  by (cases xs; cases "tl xs") auto

lemma conv1d_correct:
  fixes p :: uint
  assumes wf: "well_formed u weight bias" and fit: "fits_uint u weight p"
    and K: "sizes weight ! 0 \<le> sizes u ! 1 + 2 * unat p"
    and T: "packed_of (dtype u) = Some T"
  shows "\<exists>r. conv1d_cuda_blh dev u weight bias p = Inr r \<and> stdout r = [] \<and>
           out r = conv_ref (ops T dev) (pad_seq (fzero (ops T dev)) (unat p) u) weight bias"
proof -
  define B where "B = sizes u ! 0"
  define L where "L = sizes u ! 1"
  define D where "D = sizes u ! 2"
  define Kn where "Kn = sizes weight ! 0"
  define Lo where "Lo = L + 2 * unat p + 1 - Kn"
  let ?A = "ops T dev"
  let ?xp = "pad_seq (fzero ?A) (unat p) u"
  let ?ref = "conv_ref ?A ?xp weight bias"
  from wf have "even D" by (simp add: well_formed_def D_def)
  then obtain D' where D': "D = 2 * D'" by (elim evenE)
  have su: "sizes u = [B, L, 2 * D']"
    using wf list3 [of "sizes u"] by (simp add: well_formed_def B_def L_def D_def [symmetric] D')
  have sw: "sizes weight = [Kn, 2 * D']"
    using wf list2 [of "sizes weight"] by (simp add: well_formed_def Kn_def D_def [symmetric] D')
  have len: "length (storage u) = B * L * (2 * D')" "length (storage weight) = Kn * (2 * D')"
    "length (storage bias) = 2 * D'"
    using wf by (simp_all add: well_formed_def B_def L_def Kn_def D_def [symmetric] D')
  have f: "B < 2 ^ 32" "2 * D' < 2 ^ 32" "L + 2 * unat p + 1 < 2 ^ 32" "B * L * D' \<le> 2 ^ 32"
    "B * Lo * D' \<le> 2 ^ 32" "Kn * D' \<le> 2 ^ 32"
    using fit by (simp_all add: fits_uint_def B_def L_def Kn_def Lo_def D_def [symmetric] D')
  have K': "Kn \<le> L + 2 * unat p" using K by (simp add: Kn_def L_def)
  have "(of_nat Lo :: uint) = of_nat (L + 2 * unat p + 1) - of_nat Kn"
    unfolding Lo_def using K' by (intro of_nat_diff) linarith
  then have "(of_nat L + 2 * p - of_nat Kn + 1 :: uint) = of_nat Lo" by simp
  moreover have "Lo < 2 ^ 32" unfolding Lo_def using f(3) by linarith
  ultimately have ulo: "Lo = unat (of_nat L + 2 * p - of_nat Kn + 1 :: uint)"
    by (simp only: unat_of_nat32)
  have "\<exists>r. conv1d_cuda_blh dev u weight bias p = Inr r \<and> sizes (out r) = [B, Lo, 2 * D'] \<and>
           dtype (out r) = dtype u \<and> length (storage (out r)) = B * Lo * (2 * D') \<and> stdout r = [] \<and>
           (\<forall>b l c. b < B \<longrightarrow> l < Lo \<longrightarrow> c < (2 * D') div 2 \<longrightarrow>
              (\<exists>v. snd (gen_store T dev (kargs_of u weight bias p) (of_nat b) (of_nat l) (of_nat c))
                     = Some v \<and>
                   storage (out r) ! ((b * Lo + l) * (2 * D') + 2 * c) = Some (fst v) \<and>
                   storage (out r) ! ((b * Lo + l) * (2 * D') + 2 * c + 1) = Some (snd v)))"
  proof (rule run_general [where K = Kn and L = L])
    show "sizes u = [B, L, 2 * D']" by (rule su)
    show "sizes weight ! 0 = Kn" "1 \<le> length (sizes weight)" by (simp_all add: sw)
    show "B < 2 ^ 32" "L < 2 ^ 32" "2 * D' < 2 ^ 32" "Kn < 2 ^ 32" using f K' by simp_all
    show "length (storage u) = B * L * (2 * D')" "Kn * (2 * D') \<le> length (storage weight)"
      "2 * D' \<le> length (storage bias)" using len by simp_all
    show "even (2 * D')" by simp
    show "packed_of (dtype u) = Some T" by (rule T)
    show "0 < Kn \<longrightarrow> 0 < L + unat p" using K' by linarith
    show "Lo = unat (of_nat L + 2 * p - of_nat Kn + 1 :: uint)" by (rule ulo)
    show "B * Lo * (2 * D' div 2) \<le> 2 ^ 32" using f(5) by simp
  qed
  then obtain r where r: "conv1d_cuda_blh dev u weight bias p = Inr r"
    and rs: "sizes (out r) = [B, Lo, 2 * D']" "dtype (out r) = dtype u"
      "length (storage (out r)) = B * Lo * (2 * D')" "stdout r = []"
    and el: "\<And>b l c. b < B \<Longrightarrow> l < Lo \<Longrightarrow> c < D' \<Longrightarrow>
              (\<exists>v. snd (gen_store T dev (kargs_of u weight bias p) (of_nat b) (of_nat l) (of_nat c))
                     = Some v \<and>
                   storage (out r) ! ((b * Lo + l) * (2 * D') + 2 * c) = Some (fst v) \<and>
                   storage (out r) ! ((b * Lo + l) * (2 * D') + 2 * c + 1) = Some (snd v))"
    by auto
  have sx: "sizes ?xp = [B, L + 2 * unat p, 2 * D']" by (simp add: pad_seq_def su Let_def)
  have Lo': "Lo = L + 2 * unat p + 1 - Kn" by (rule Lo_def)
  have refs: "storage ?ref ! ((b * Lo + l) * (2 * D') + c) = Some (conv_ref_elem ?A ?xp weight bias b l c)"
    if "b < B" "l < Lo" "c < 2 * D'" for b l c
    using sx _ Lo' that by (rule storage_conv_ref(1)) (simp add: sw)
  have reflen: "length (storage ?ref) = B * Lo * (2 * D')"
    and refsz: "sizes ?ref = [B, Lo, 2 * D']" and refdt: "dtype ?ref = dtype u"
  proof -
    show "length (storage ?ref) = B * Lo * (2 * D')"
      by (cases "0 < B \<and> 0 < Lo \<and> 0 < D'")
        (auto simp: conv_ref_def Let_def sx sw Lo' length_concat_blocks [where m = "Lo * (2 * D')"]
          length_concat_blocks [where m = "2 * D'"])
    show "sizes ?ref = [B, Lo, 2 * D']" by (simp add: conv_ref_def Let_def sx sw Lo')
    show "dtype ?ref = dtype u" by (simp add: conv_ref_def Let_def pad_seq_def)
  qed
  have "storage (out r) = storage ?ref"
  proof (rule nth_equalityI)
    show "length (storage (out r)) = length (storage ?ref)" by (simp only: rs reflen)
  next
    fix j assume "j < length (storage (out r))"
    then have "j < B * Lo * (2 * D')" by (simp only: rs)
    then obtain b l c q where c: "b < B" "l < Lo" "c < D'" "q < 2"
      and j: "j = (b * Lo + l) * (2 * D') + 2 * c + q"
      using flat_decode by blast
    have lK: "l + Kn \<le> L + 2 * unat p" using c(2) K' unfolding Lo_def by linarith
    have D31: "D' < 2 ^ 31" using f(2) by simp
    have L32: "L + 2 * unat p < 2 ^ 32" using f(3) by simp
    have g: "snd (gen_store T dev (kargs_of u weight bias p) (of_nat b) (of_nat l) (of_nat c)) =
       Some (conv_ref_elem ?A ?xp weight bias b l (2 * c),
             conv_ref_elem ?A ?xp weight bias b l (2 * c + 1))"
      using su sw len f(1) D31 L32 f(4) f(6) c(1) lK c(3) by (rule gen_store_ref)
    from el [OF c(1,2,3)] g
    have o: "storage (out r) ! ((b * Lo + l) * (2 * D') + 2 * c) =
          Some (conv_ref_elem ?A ?xp weight bias b l (2 * c))"
      "storage (out r) ! ((b * Lo + l) * (2 * D') + 2 * c + 1) =
          Some (conv_ref_elem ?A ?xp weight bias b l (2 * c + 1))"
      by auto
    have c2: "2 * c < 2 * D'" "2 * c + 1 < 2 * D'" using c(3) by simp_all
    from c(4) have "q = 0 \<or> q = 1" by auto
    then show "storage (out r) ! j = storage ?ref ! j"
    proof
      assume "q = 0"
      then show ?thesis using o(1) refs [OF c(1,2) c2(1)] by (simp add: j)
    next
      assume "q = 1"
      then show ?thesis using o(2) refs [OF c(1,2) c2(2)] by (simp add: j add.assoc)
    qed
  qed
  then have "out r = ?ref"
    using rs(1,2) refsz refdt by (intro tensor.equality) simp_all
  with r rs(4) show ?thesis by blast
qed

subsection \<open>Every output element is stored exactly once\<close>





subsection \<open>Concrete runs\<close>

lemma ex_ref:
  "conv_ref exact_ops (pad_seq 0 1 (ex_u dt)) (ex_weight dt) (ex_bias dt) =
     \<lparr>sizes = [1, 5, 2], dtype = dt, storage = map Some [3, 3, 6, 6, 9, 9, 12, 12, 9, 9]\<rparr>"
  by code_simp


subsection \<open>Zero-padding equivalence\<close>

lemma fold_sum_upt:
  "fold (\<lambda>k acc. f k + acc) [0..<n] a = a + (\<Sum>k<n. f k)" for f :: "nat \<Rightarrow> int"
  by (induction n) simp_all

text \<open>With exact arithmetic the reference element is the sum of the specification.\<close>

lemma conv_ref_elem_exact:
  "conv_ref_elem exact_ops x weight bias b l d =
     storage bias ! d + (\<Sum>k\<in>{..<sizes weight ! 0}. at3 x b (l + k) d * at2 weight k d)"
  by (simp add: conv_ref_elem_def exact_ops_def fold_sum_upt)



lemma ex_well_formed:
  "well_formed (ex_u dt) (ex_weight dt) (ex_bias dt)" "fits_uint (ex_u dt) (ex_weight dt) 1"
  by (simp_all add: well_formed_def fits_uint_def ex_u_def ex_weight_def ex_bias_def)



subsection \<open>Batch independence\<close>













lemma exact_ops_of: "ops T exact_dev = exact_ops"
  by (cases T) (simp_all add: exact_dev_def)

lemma exact_zero: "fzero exact_ops = 0"
  by (simp add: exact_ops_def)

text \<open>
  C5 (as amended). The worked example: \<open>B = 1\<close>, \<open>L = 5\<close>, \<open>D = 2\<close>, \<open>K = 3\<close>, padding 1,
  input rows \<open>[1,1] \<dots> [5,5]\<close>, all-ones weight, zero bias. For every supported element
  type the call returns an output of length 5 with rows \<open>[3,3]\<close>, \<open>[6,6]\<close>, \<open>[9,9]\<close>,
  \<open>[12,12]\<close>, \<open>[9,9]\<close>. The last row is \<open>4 + 5 + 0 = 9\<close>, not 7.
\<close>

theorem worked_example:
  assumes "packed_of dt = Some T"
  shows "\<exists>r. conv1d_cuda_blh exact_dev (ex_u dt) (ex_weight dt) (ex_bias dt) 1 = Inr r \<and>
     stdout r = [] \<and>
     out r = \<lparr>sizes = [1, 5, 2], dtype = dt,
              storage = map Some [3, 3, 6, 6, 9, 9, 12, 12, 9, 9]\<rparr>"
proof -
  have K: "sizes (ex_weight dt) ! 0 \<le> sizes (ex_u dt) ! 1 + 2 * unat (1 :: uint)"
    by (simp add: ex_u_def ex_weight_def)
  have T: "packed_of (dtype (ex_u dt)) = Some T"
    using assms by (simp add: ex_u_def)
  have u1: "unat (1 :: uint) = 1" by simp
  from conv1d_correct [OF ex_well_formed K T, of exact_dev]
  show ?thesis
    unfolding exact_ops_of exact_zero u1 ex_ref .
qed

theorem worked_example_witness:
  "packed_of kFloat16 = Some Half2 \<and>
   (\<exists>r. conv1d_cuda_blh exact_dev (ex_u kFloat16) (ex_weight kFloat16) (ex_bias kFloat16) 1 = Inr r \<and>
     stdout r = [] \<and>
     out r = \<lparr>sizes = [1, 5, 2], dtype = kFloat16,
              storage = map Some [3, 3, 6, 6, 9, 9, 12, 12, 9, 9]\<rparr>)"
proof -
  have T: "packed_of kFloat16 = Some Half2" by simp
  from worked_example [OF T] T show ?thesis by (intro conjI)
qed

theorem worked_example_counterexample:
  "\<exists>r. conv1d_cuda_blh exact_dev (ex_u kBFloat16) (ex_weight kBFloat16) (ex_bias kBFloat16) 1 = Inr r \<and>
     at3 (out r) 0 4 0 = Some 9 \<and> at3 (out r) 0 4 1 = Some 9 \<and>
     at3 (out r) 0 4 0 \<noteq> Some 7"
  unfolding ex_run_bfloat16 by (simp add: at3_def)

end
